theory Spec2Isabelle
  imports Main "HOL-Library.Word"
begin

unbundle bit_operations_syntax

section \<open>Bytes, integer types and their object representation\<close>

type_synonym byte = "8 word"

text \<open>
  The host's byte order.  The header calls \<open>htobe16\<close>, \<open>be16toh\<close> and their 32- and
  64-bit siblings of \<open><endian.h>\<close>, whose result depends on the host; every function
  that goes through them takes the host's byte order as its first argument.
\<close>

datatype endian = LittleEndian | BigEndian

text \<open>The eight integral types the header's overloads exist for, and a value of each.\<close>

datatype IntType =
  int8_t | int16_t | int32_t | int64_t | uint8_t | uint16_t | uint32_t | uint64_t

datatype IntVal =
  I8 "8 word" | I16 "16 word" | I32 "32 word" | I64 "64 word"
| U8 "8 word" | U16 "16 word" | U32 "32 word" | U64 "64 word"

fun type_of :: "IntVal \<Rightarrow> IntType" where
  "type_of (I8 _) = int8_t"
| "type_of (I16 _) = int16_t"
| "type_of (I32 _) = int32_t"
| "type_of (I64 _) = int64_t"
| "type_of (U8 _) = uint8_t"
| "type_of (U16 _) = uint16_t"
| "type_of (U32 _) = uint32_t"
| "type_of (U64 _) = uint64_t"

fun sizeof :: "IntType \<Rightarrow> nat" where
  "sizeof int8_t = 1"
| "sizeof int16_t = 2"
| "sizeof int32_t = 4"
| "sizeof int64_t = 8"
| "sizeof uint8_t = 1"
| "sizeof uint16_t = 2"
| "sizeof uint32_t = 4"
| "sizeof uint64_t = 8"

fun is_signed :: "IntType \<Rightarrow> bool" where
  "is_signed int8_t = True"
| "is_signed int16_t = True"
| "is_signed int32_t = True"
| "is_signed int64_t = True"
| "is_signed _ = False"

text \<open>The mathematical value of a typed integer: two's complement for the signed types.\<close>

fun int_of :: "IntVal \<Rightarrow> int" where
  "int_of (I8 w) = sint w"
| "int_of (I16 w) = sint w"
| "int_of (I32 w) = sint w"
| "int_of (I64 w) = sint w"
| "int_of (U8 w) = uint w"
| "int_of (U16 w) = uint w"
| "int_of (U32 w) = uint w"
| "int_of (U64 w) = uint w"

text \<open>\<open>a < b\<close> on two values of one integer type.\<close>

definition less_native :: "IntVal \<Rightarrow> IntVal \<Rightarrow> bool" where
  "less_native a b = (int_of a < int_of b)"

text \<open>\<open>static_cast<T>(v)\<close> between integer types: the value modulo \<open>2 ^ width\<close>.\<close>

fun static_cast :: "IntType \<Rightarrow> IntVal \<Rightarrow> IntVal" where
  "static_cast int8_t v = I8 (word_of_int (int_of v))"
| "static_cast int16_t v = I16 (word_of_int (int_of v))"
| "static_cast int32_t v = I32 (word_of_int (int_of v))"
| "static_cast int64_t v = I64 (word_of_int (int_of v))"
| "static_cast uint8_t v = U8 (word_of_int (int_of v))"
| "static_cast uint16_t v = U16 (word_of_int (int_of v))"
| "static_cast uint32_t v = U32 (word_of_int (int_of v))"
| "static_cast uint64_t v = U64 (word_of_int (int_of v))"

text \<open>
  The bytes of a number, least significant first, and the number a byte sequence
  denotes that way.
\<close>

fun le_bytes :: "nat \<Rightarrow> nat \<Rightarrow> byte list" where
  "le_bytes 0 v = []"
| "le_bytes (Suc n) v = word_of_nat (v mod 256) # le_bytes n (v div 256)"

fun le_value :: "byte list \<Rightarrow> nat" where
  "le_value [] = 0"
| "le_value (b # bs) = unat b + 256 * le_value bs"

text \<open>
  The object representation of an unsigned integer in the host's memory (what
  \<open>memcpy\<close> from its address copies), and the integer that a dereferenced pointer
  reads from such bytes.
\<close>

definition object_bytes :: "endian \<Rightarrow> 'a::len word \<Rightarrow> byte list" where
  "object_bytes h x =
     (case h of
        LittleEndian \<Rightarrow> le_bytes (LENGTH('a) div 8) (unat x)
      | BigEndian \<Rightarrow> rev (le_bytes (LENGTH('a) div 8) (unat x)))"

definition object_value :: "endian \<Rightarrow> byte list \<Rightarrow> 'a::len word" where
  "object_value h bs =
     (case h of
        LittleEndian \<Rightarrow> word_of_nat (le_value bs)
      | BigEndian \<Rightarrow> word_of_nat (le_value (rev bs)))"

fun object_repr :: "endian \<Rightarrow> IntVal \<Rightarrow> byte list" where
  "object_repr h (I8 w) = object_bytes h w"
| "object_repr h (I16 w) = object_bytes h w"
| "object_repr h (I32 w) = object_bytes h w"
| "object_repr h (I64 w) = object_bytes h w"
| "object_repr h (U8 w) = object_bytes h w"
| "object_repr h (U16 w) = object_bytes h w"
| "object_repr h (U32 w) = object_bytes h w"
| "object_repr h (U64 w) = object_bytes h w"

fun object_of :: "endian \<Rightarrow> IntType \<Rightarrow> byte list \<Rightarrow> IntVal" where
  "object_of h int8_t bs = I8 (object_value h bs)"
| "object_of h int16_t bs = I16 (object_value h bs)"
| "object_of h int32_t bs = I32 (object_value h bs)"
| "object_of h int64_t bs = I64 (object_value h bs)"
| "object_of h uint8_t bs = U8 (object_value h bs)"
| "object_of h uint16_t bs = U16 (object_value h bs)"
| "object_of h uint32_t bs = U32 (object_value h bs)"
| "object_of h uint64_t bs = U64 (object_value h bs)"

section \<open>The functions of \<open><endian.h>\<close>, \<open><cstring>\<close> and \<open><string>\<close> that the header calls\<close>

text \<open>Reversing the bytes of an integer (\<open>XCHG\<close>, \<open>BSWAP\<close>).\<close>

definition bswap :: "'a::len word \<Rightarrow> 'a word" where
  "bswap x = word_of_nat (le_value (rev (le_bytes (LENGTH('a) div 8) (unat x))))"

text \<open>
  \<open>htobe\<close>\<^emph>\<open>nn\<close> and \<open>be\<close>\<^emph>\<open>nn\<close>\<open>toh\<close>: the identity on a big-endian host, a byte swap on a
  little-endian one.
\<close>

definition htobe16 :: "endian \<Rightarrow> 16 word \<Rightarrow> 16 word" where
  "htobe16 h x = (case h of LittleEndian \<Rightarrow> bswap x | BigEndian \<Rightarrow> x)"

definition htobe32 :: "endian \<Rightarrow> 32 word \<Rightarrow> 32 word" where
  "htobe32 h x = (case h of LittleEndian \<Rightarrow> bswap x | BigEndian \<Rightarrow> x)"

definition htobe64 :: "endian \<Rightarrow> 64 word \<Rightarrow> 64 word" where
  "htobe64 h x = (case h of LittleEndian \<Rightarrow> bswap x | BigEndian \<Rightarrow> x)"

definition be16toh :: "endian \<Rightarrow> 16 word \<Rightarrow> 16 word" where
  "be16toh h x = (case h of LittleEndian \<Rightarrow> bswap x | BigEndian \<Rightarrow> x)"

definition be32toh :: "endian \<Rightarrow> 32 word \<Rightarrow> 32 word" where
  "be32toh h x = (case h of LittleEndian \<Rightarrow> bswap x | BigEndian \<Rightarrow> x)"

definition be64toh :: "endian \<Rightarrow> 64 word \<Rightarrow> 64 word" where
  "be64toh h x = (case h of LittleEndian \<Rightarrow> bswap x | BigEndian \<Rightarrow> x)"

text \<open>
  What a call can end in other than its result: the two exceptions of \<open>std::stoul\<close>,
  and an access outside the key's array, which the header does not check and which is
  undefined behaviour in C++.
\<close>

datatype error = invalid_argument | out_of_range | out_of_bounds

text \<open>
  \<open>memcpy(data + offset, src, n)\<close> into an array \<open>data\<close>: the \<open>n\<close> bytes from \<open>offset\<close>
  on are replaced by the first \<open>n\<close> bytes of \<open>src\<close>.
\<close>

definition memcpy_at :: "byte list \<Rightarrow> nat \<Rightarrow> byte list \<Rightarrow> nat \<Rightarrow> error + byte list" where
  "memcpy_at data offset src n =
     (if offset + n \<le> length data \<and> n \<le> length src
      then Inr (take offset data @ take n src @ drop (offset + n) data)
      else Inl out_of_bounds)"

text \<open>\<open>*reinterpret_cast<const T *>(data + offset)\<close>: the \<open>sizeof(T)\<close> bytes read as a \<open>T\<close>.\<close>

definition deref_at :: "endian \<Rightarrow> IntType \<Rightarrow> byte list \<Rightarrow> nat \<Rightarrow> error + IntVal" where
  "deref_at h t data offset =
     (if offset + sizeof t \<le> length data
      then Inr (object_of h t (take (sizeof t) (drop offset data)))
      else Inl out_of_bounds)"

text \<open>
  \<open>memset(data, c, n)\<close> on an array of at least \<open>n\<close> bytes.  Its one call is on the
  whole array of a key, \<open>n\<close> being the array's declared length.
\<close>

definition memset :: "byte list \<Rightarrow> byte \<Rightarrow> nat \<Rightarrow> byte list" where
  "memset data c n = replicate n c @ drop n data"

text \<open>
  \<open>memcmp(a, b, n)\<close> on two arrays of at least \<open>n\<close> bytes: zero when the first \<open>n\<close>
  bytes agree, otherwise the difference of the first two bytes that differ, both read
  as \<open>unsigned char\<close>.  The C standard fixes only the sign of a non-zero result; no
  statement below depends on more than the sign.  Every call is on the whole arrays of
  two keys of one size parameter, \<open>n\<close> being their declared length; the second
  equation ends the comparison when the \<open>n\<close> bytes are used up.
\<close>

fun memcmp :: "byte list \<Rightarrow> byte list \<Rightarrow> nat \<Rightarrow> int" where
  "memcmp (x # xs) (y # ys) (Suc n) =
     (if x = y then memcmp xs ys n else uint x - uint y)"
| "memcmp _ _ _ = 0"

text \<open>
  \<open>std::getline(iss, temp, delim)\<close> on the unread characters of the stream: \<open>None\<close>
  when nothing is left to extract (the stream fails and the loop ends), otherwise the
  characters up to the first delimiter and the stream behind it.  The delimiter is
  extracted and dropped; a last token needs no delimiter after it.
\<close>

fun getline :: "string \<Rightarrow> char \<Rightarrow> (string \<times> string) option" where
  "getline [] delim = None"
| "getline (c # cs) delim =
     (if c = delim then Some ([], cs)
      else (case getline cs delim of
              None \<Rightarrow> Some ([c], [])
            | Some (temp, rest) \<Rightarrow> Some (c # temp, rest)))"

text \<open>
  \<open>std::stoul(str)\<close> in base 10, as \<open>strtoul\<close> reads it: leading white space is
  skipped, one sign is accepted, the longest run of decimal digits is the number and
  what follows it is ignored.  No digit throws \<open>std::invalid_argument\<close>, a number above
  \<open>ULONG_MAX\<close> throws \<open>std::out_of_range\<close>, and a minus sign negates the result modulo
  \<open>ULONG_MAX + 1\<close>.  \<open>unsigned long\<close> has 64 bits, as on the 64-bit hosts with
  \<open><endian.h>\<close>; the result goes to \<open>AddUnsignedInteger<uint64_t>\<close> as it is.
\<close>

definition isspace :: "char \<Rightarrow> bool" where
  "isspace c = ((of_char c :: nat) = 32 \<or> (9 \<le> (of_char c :: nat) \<and> (of_char c :: nat) \<le> 13))"

definition isdigit :: "char \<Rightarrow> bool" where
  "isdigit c = (48 \<le> (of_char c :: nat) \<and> (of_char c :: nat) \<le> 57)"

definition decimal_value :: "string \<Rightarrow> nat" where
  "decimal_value ds = foldl (\<lambda>acc c. acc * 10 + (of_char c - 48)) 0 ds"

definition ULONG_MAX :: nat where
  "ULONG_MAX = 2 ^ 64 - 1"

definition stoul :: "string \<Rightarrow> error + 64 word" where
  "stoul str =
     (let s1 = dropWhile isspace str;
          neg = (case s1 of c # _ \<Rightarrow> c = CHR ''-'' | [] \<Rightarrow> False);
          s2 = (case s1 of c # cs \<Rightarrow> if c = CHR ''-'' \<or> c = CHR ''+'' then cs else s1 | [] \<Rightarrow> s1);
          ds = takeWhile isdigit s2;
          v = decimal_value ds
      in if ds = [] then Inl invalid_argument
         else if ULONG_MAX < v then Inl out_of_range
         else Inr (if neg then - word_of_nat v else word_of_nat v))"

section \<open>\<open>GenericKey<keySize>\<close>\<close>

text \<open>
  The class has one data member, the array \<open>unsigned char data[key_size_byte]\<close>; a key is
  that array, and \<open>keySize\<close>, the template parameter, is an argument of the functions
  that use it.  A function that changes the key returns the new array, one that
  returns a value returns it together with the array.
\<close>

type_synonym GenericKey = "byte list"

definition key_size_byte :: "nat \<Rightarrow> nat" where
  "key_size_byte keySize = keySize * 8"

definition TwoBytesToBigEndian :: "endian \<Rightarrow> 16 word \<Rightarrow> 16 word" where
  "TwoBytesToBigEndian h d = htobe16 h d"

definition FourBytesToBigEndian :: "endian \<Rightarrow> 32 word \<Rightarrow> 32 word" where
  "FourBytesToBigEndian h d = htobe32 h d"

definition EightBytesToBigEndian :: "endian \<Rightarrow> 64 word \<Rightarrow> 64 word" where
  "EightBytesToBigEndian h d = htobe64 h d"

definition TwoBytesToHostEndian :: "endian \<Rightarrow> 16 word \<Rightarrow> 16 word" where
  "TwoBytesToHostEndian h d = be16toh h d"

definition FourBytesToHostEndian :: "endian \<Rightarrow> 32 word \<Rightarrow> 32 word" where
  "FourBytesToHostEndian h d = be32toh h d"

definition EightBytesToHostEndian :: "endian \<Rightarrow> 64 word \<Rightarrow> 64 word" where
  "EightBytesToHostEndian h d = be64toh h d"

text \<open>
  The overloads of \<open>ToBigEndian\<close> and \<open>ToHostEndian\<close>, in the order of the header.  Each
  returns the unsigned type of its argument's width; a signed argument is first
  converted to that type (\<open>static_cast\<close>: its value modulo \<open>2 ^ width\<close>).
\<close>

fun ToBigEndian :: "endian \<Rightarrow> IntVal \<Rightarrow> IntVal" where
  "ToBigEndian h (U8 d) = U8 d"
| "ToBigEndian h (I8 d) = U8 (word_of_int (sint d))"
| "ToBigEndian h (U16 d) = U16 (TwoBytesToBigEndian h d)"
| "ToBigEndian h (I16 d) = U16 (TwoBytesToBigEndian h (word_of_int (sint d)))"
| "ToBigEndian h (U32 d) = U32 (FourBytesToBigEndian h d)"
| "ToBigEndian h (I32 d) = U32 (FourBytesToBigEndian h (word_of_int (sint d)))"
| "ToBigEndian h (U64 d) = U64 (EightBytesToBigEndian h d)"
| "ToBigEndian h (I64 d) = U64 (EightBytesToBigEndian h (word_of_int (sint d)))"

fun ToHostEndian :: "endian \<Rightarrow> IntVal \<Rightarrow> IntVal" where
  "ToHostEndian h (U8 d) = U8 d"
| "ToHostEndian h (I8 d) = U8 (word_of_int (sint d))"
| "ToHostEndian h (U16 d) = U16 (TwoBytesToHostEndian h d)"
| "ToHostEndian h (I16 d) = U16 (TwoBytesToHostEndian h (word_of_int (sint d)))"
| "ToHostEndian h (U32 d) = U32 (FourBytesToHostEndian h d)"
| "ToHostEndian h (I32 d) = U32 (FourBytesToHostEndian h (word_of_int (sint d)))"
| "ToHostEndian h (U64 d) = U64 (EightBytesToHostEndian h d)"
| "ToHostEndian h (I64 d) = U64 (EightBytesToHostEndian h (word_of_int (sint d)))"

text \<open>
  \<open>SignFlip<IntType>\<close>: the mask is \<open>1\<close> shifted to the highest bit of the type,
  \<open>sizeof(IntType) * 8 - 1\<close>, and the result is \<open>data ^ mask\<close>.
\<close>

fun SignFlip :: "IntVal \<Rightarrow> IntVal" where
  "SignFlip (I8 d) = I8 (d XOR push_bit (sizeof int8_t * 8 - 1) 1)"
| "SignFlip (I16 d) = I16 (d XOR push_bit (sizeof int16_t * 8 - 1) 1)"
| "SignFlip (I32 d) = I32 (d XOR push_bit (sizeof int32_t * 8 - 1) 1)"
| "SignFlip (I64 d) = I64 (d XOR push_bit (sizeof int64_t * 8 - 1) 1)"
| "SignFlip (U8 d) = U8 (d XOR push_bit (sizeof uint8_t * 8 - 1) 1)"
| "SignFlip (U16 d) = U16 (d XOR push_bit (sizeof uint16_t * 8 - 1) 1)"
| "SignFlip (U32 d) = U32 (d XOR push_bit (sizeof uint32_t * 8 - 1) 1)"
| "SignFlip (U64 d) = U64 (d XOR push_bit (sizeof uint64_t * 8 - 1) 1)"

definition ZeroOut :: "nat \<Rightarrow> GenericKey \<Rightarrow> GenericKey" where
  "ZeroOut keySize data = memset data 0 (key_size_byte keySize)"

text \<open>
  The default constructor runs \<open>ZeroOut\<close> on the storage of the new object; \<open>raw\<close> is
  what that storage held before.
\<close>

definition GenericKey :: "nat \<Rightarrow> byte list \<Rightarrow> GenericKey" where
  "GenericKey keySize raw = ZeroOut keySize raw"

definition AddInteger :: "endian \<Rightarrow> IntVal \<Rightarrow> nat \<Rightarrow> GenericKey \<Rightarrow> error + GenericKey" where
  "AddInteger h d offset data =
     (let sign_flipped = SignFlip d;
          big_endian = ToBigEndian h sign_flipped
      in memcpy_at data offset (object_repr h big_endian) (sizeof (type_of d)))"

definition AddUnsignedInteger :: "endian \<Rightarrow> IntVal \<Rightarrow> nat \<Rightarrow> GenericKey \<Rightarrow> error + GenericKey" where
  "AddUnsignedInteger h d offset data =
     (let big_endian = ToBigEndian h d
      in memcpy_at data offset (object_repr h big_endian) (sizeof (type_of d)))"

definition GetInteger ::
  "endian \<Rightarrow> IntType \<Rightarrow> nat \<Rightarrow> GenericKey \<Rightarrow> error + (IntVal \<times> GenericKey)" where
  "GetInteger h t offset data =
     (case deref_at h t data offset of
        Inl e \<Rightarrow> Inl e
      | Inr p \<Rightarrow>
          (let host_endian = ToHostEndian h p
           in Inr (SignFlip (static_cast t host_endian), data)))"

definition GetUnsignedInteger ::
  "endian \<Rightarrow> IntType \<Rightarrow> nat \<Rightarrow> GenericKey \<Rightarrow> error + (IntVal \<times> GenericKey)" where
  "GetUnsignedInteger h t offset data =
     (case deref_at h t data offset of
        Inl e \<Rightarrow> Inl e
      | Inr p \<Rightarrow>
          (let host_endian = ToHostEndian h p
           in Inr (static_cast t host_endian, data)))"


text \<open>
  The loop of \<open>setFromString\<close>: \<open>iss\<close> is what the stream has not yet read, \<open>i\<close> the
  slot counter.  An exception of \<open>stoul\<close> leaves the loop with the key as it is then.
\<close>

function setFromString_loop ::
  "endian \<Rightarrow> nat \<Rightarrow> string \<Rightarrow> nat \<Rightarrow> GenericKey \<Rightarrow> GenericKey \<times> error option" where
  "setFromString_loop h keySize iss i data =
     (case getline iss CHR '','' of
        None \<Rightarrow> (data, None)
      | Some (temp, iss') \<Rightarrow>
          (case stoul temp of
             Inl e \<Rightarrow> (data, Some e)
           | Inr v \<Rightarrow>
               (case AddUnsignedInteger h (U64 v) (i * sizeof uint64_t) data of
                  Inl e \<Rightarrow> (data, Some e)
                | Inr data' \<Rightarrow>
                    if keySize \<le> i + 1 then (data', None)
                    else setFromString_loop h keySize iss' (i + 1) data')))"
  by pat_completeness auto

termination setFromString_loop
proof (relation "measure (\<lambda>(h, keySize, iss, i, data). length iss)")
  show "wf (measure (\<lambda>(h, keySize, iss, i, data). length iss))"
    by simp
next
  fix h :: endian and keySize i :: nat and iss temp iss' :: string
    and data data' :: GenericKey and p :: "string \<times> string" and v :: "64 word"
  assume g: "getline iss CHR '','' = Some p" and p: "(temp, iss') = p"
  have shorter: "length r < length s" if "getline s d = Some (t, r)" for s t r d
    using that by (induction s arbitrary: t r) (auto split: if_splits option.splits)
  from g p have "length iss' < length iss"
    by (auto intro: shorter)
  then show "((h, keySize, iss', i + 1, data'), (h, keySize, iss, i, data))
      \<in> measure (\<lambda>(h, keySize, iss, i, data). length iss)"
    by simp
qed

declare setFromString_loop.simps [simp del]

definition setFromString ::
  "endian \<Rightarrow> nat \<Rightarrow> string \<Rightarrow> GenericKey \<Rightarrow> GenericKey \<times> error option" where
  "setFromString h keySize key data =
     setFromString_loop h keySize key 0 (ZeroOut keySize data)"

text \<open>
  The comparisons.  \<open>Compare\<close> and the three directly implemented operators each call
  \<open>memcmp\<close> on the two arrays; the other three operators negate.
\<close>

definition Compare :: "nat \<Rightarrow> GenericKey \<Rightarrow> GenericKey \<Rightarrow> int" where
  "Compare keySize a b = memcmp a b (key_size_byte keySize)"

definition LessThan :: "nat \<Rightarrow> GenericKey \<Rightarrow> GenericKey \<Rightarrow> bool" where
  "LessThan keySize a b = (Compare keySize a b < 0)"

definition Equals :: "nat \<Rightarrow> GenericKey \<Rightarrow> GenericKey \<Rightarrow> bool" where
  "Equals keySize a b = (Compare keySize a b = 0)"

definition operator_lt :: "nat \<Rightarrow> GenericKey \<Rightarrow> GenericKey \<Rightarrow> bool" where
  "operator_lt keySize this other = (memcmp this other (key_size_byte keySize) < 0)"

definition operator_gt :: "nat \<Rightarrow> GenericKey \<Rightarrow> GenericKey \<Rightarrow> bool" where
  "operator_gt keySize this other = (memcmp this other (key_size_byte keySize) > 0)"

definition operator_eq :: "nat \<Rightarrow> GenericKey \<Rightarrow> GenericKey \<Rightarrow> bool" where
  "operator_eq keySize this other = (memcmp this other (key_size_byte keySize) = 0)"

definition operator_ne :: "nat \<Rightarrow> GenericKey \<Rightarrow> GenericKey \<Rightarrow> bool" where
  "operator_ne keySize this other = (\<not> operator_eq keySize this other)"

definition operator_le :: "nat \<Rightarrow> GenericKey \<Rightarrow> GenericKey \<Rightarrow> bool" where
  "operator_le keySize this other = (\<not> operator_gt keySize this other)"

definition operator_ge :: "nat \<Rightarrow> GenericKey \<Rightarrow> GenericKey \<Rightarrow> bool" where
  "operator_ge keySize this other = (\<not> operator_lt keySize this other)"

section \<open>The adapter classes\<close>

definition GenericComparator :: "nat \<Rightarrow> GenericKey \<Rightarrow> GenericKey \<Rightarrow> bool" where
  "GenericComparator keySize lhs rhs = LessThan keySize lhs rhs"

definition GenericEqualityChecker :: "nat \<Rightarrow> GenericKey \<Rightarrow> GenericKey \<Rightarrow> bool" where
  "GenericEqualityChecker keySize lhs rhs = Equals keySize lhs rhs"

definition GenericHasher :: "nat \<Rightarrow> GenericKey \<Rightarrow> 64 word" where
  "GenericHasher keySize lhs = 0"


section \<open>Notions used in the statements\<close>

text \<open>
  The bytes of an integer, most significant first, and the integer a byte sequence
  denotes that way.  The lemmas below show that these are the bytes the pack functions
  store and the value the unpack functions read, on either host.
\<close>

definition be_bytes :: "'a::len word \<Rightarrow> byte list" where
  "be_bytes x = rev (le_bytes (LENGTH('a) div 8) (unat x))"

definition be_value :: "byte list \<Rightarrow> 'a::len word" where
  "be_value bs = word_of_nat (le_value (rev bs))"

fun be_repr :: "IntVal \<Rightarrow> byte list" where
  "be_repr (I8 w) = be_bytes w"
| "be_repr (I16 w) = be_bytes w"
| "be_repr (I32 w) = be_bytes w"
| "be_repr (I64 w) = be_bytes w"
| "be_repr (U8 w) = be_bytes w"
| "be_repr (U16 w) = be_bytes w"
| "be_repr (U32 w) = be_bytes w"
| "be_repr (U64 w) = be_bytes w"

fun be_obj :: "IntType \<Rightarrow> byte list \<Rightarrow> IntVal" where
  "be_obj int8_t bs = I8 (be_value bs)"
| "be_obj int16_t bs = I16 (be_value bs)"
| "be_obj int32_t bs = I32 (be_value bs)"
| "be_obj int64_t bs = I64 (be_value bs)"
| "be_obj uint8_t bs = U8 (be_value bs)"
| "be_obj uint16_t bs = U16 (be_value bs)"
| "be_obj uint32_t bs = U32 (be_value bs)"
| "be_obj uint64_t bs = U64 (be_value bs)"

text \<open>
  Packing a field with the function meant for its type: \<open>AddInteger\<close> for the signed
  types, \<open>AddUnsignedInteger\<close> for the unsigned ones; and packing a sequence of fields,
  each at its offset, in the order of the sequence.
\<close>

definition pack :: "endian \<Rightarrow> IntVal \<Rightarrow> nat \<Rightarrow> GenericKey \<Rightarrow> error + GenericKey" where
  "pack h v offset data =
     (if is_signed (type_of v) then AddInteger h v offset data
      else AddUnsignedInteger h v offset data)"

fun pack_fields :: "endian \<Rightarrow> (nat \<times> IntVal) list \<Rightarrow> GenericKey \<Rightarrow> error + GenericKey" where
  "pack_fields h [] data = Inr data"
| "pack_fields h ((offset, v) # fs) data =
     (case pack h v offset data of
        Inl e \<Rightarrow> Inl e
      | Inr data' \<Rightarrow> pack_fields h fs data')"

text \<open>
  A sequence of fields lies at increasing, non-overlapping offsets inside \<open>sz\<close> bytes,
  none before \<open>pos\<close>.
\<close>

fun layout_ok :: "nat \<Rightarrow> (nat \<times> IntVal) list \<Rightarrow> nat \<Rightarrow> bool" where
  "layout_ok pos [] sz = (pos \<le> sz)"
| "layout_ok pos ((offset, v) # fs) sz =
     (pos \<le> offset \<and> layout_ok (offset + sizeof (type_of v)) fs sz)"

text \<open>Two sequences of fields have the same types at the same offsets.\<close>

definition same_layout :: "(nat \<times> IntVal) list \<Rightarrow> (nat \<times> IntVal) list \<Rightarrow> bool" where
  "same_layout fs1 fs2 =
     list_all2 (\<lambda>f1 f2. fst f1 = fst f2 \<and> type_of (snd f1) = type_of (snd f2)) fs1 fs2"

text \<open>
  The bytes of a key from \<open>pos\<close> on that no field of the sequence covers: the stretch
  before each field, and what follows the last.  All are empty when the fields cover
  the buffer.
\<close>

fun gaps :: "nat \<Rightarrow> (nat \<times> IntVal) list \<Rightarrow> byte list \<Rightarrow> byte list list" where
  "gaps pos [] data = [drop pos data]"
| "gaps pos ((offset, v) # fs) data =
     take (offset - pos) (drop pos data) # gaps (offset + sizeof (type_of v)) fs data"

text \<open>The bytes a field holds once packed.\<close>

definition encode :: "IntVal \<Rightarrow> byte list" where
  "encode v = (if is_signed (type_of v) then be_repr (SignFlip v) else be_repr v)"

text \<open>The key from \<open>pos\<close> on, once the fields are packed into it.\<close>

fun packed_image :: "nat \<Rightarrow> (nat \<times> IntVal) list \<Rightarrow> byte list \<Rightarrow> byte list" where
  "packed_image pos [] data = drop pos data"
| "packed_image pos ((offset, v) # fs) data =
     take (offset - pos) (drop pos data) @ encode v
       @ packed_image (offset + sizeof (type_of v)) fs data"

text \<open>
  Comparing two tuples field by field, the first field dominant, each field under the
  ordering of its type: \<open>-1\<close>, \<open>0\<close> or \<open>1\<close>.
\<close>

fun tuple_compare :: "IntVal list \<Rightarrow> IntVal list \<Rightarrow> int" where
  "tuple_compare (a # as) (b # bs) =
     (if less_native a b then - 1
      else if less_native b a then 1
      else tuple_compare as bs)"
| "tuple_compare _ _ = 0"

text \<open>A decimal token, and the string of tokens separated by commas.\<close>

definition is_decimal :: "string \<Rightarrow> bool" where
  "is_decimal t = (t \<noteq> [] \<and> list_all isdigit t)"

fun comma_separated :: "string list \<Rightarrow> string" where
  "comma_separated [] = []"
| "comma_separated [t] = t"
| "comma_separated (t # ts) = t @ CHR '','' # comma_separated ts"

text \<open>All the tokens that repeated calls of \<open>getline\<close> extract from a string.\<close>

function getlines :: "string \<Rightarrow> string list" where
  "getlines iss =
     (case getline iss CHR '','' of
        None \<Rightarrow> []
      | Some (temp, iss') \<Rightarrow> temp # getlines iss')"
  by pat_completeness auto

termination getlines
proof (relation "measure length")
  show "wf (measure (length :: string \<Rightarrow> nat))"
    by simp
next
  fix iss temp iss' :: string and p :: "string \<times> string"
  assume g: "getline iss CHR '','' = Some p" and p: "(temp, iss') = p"
  have shorter: "length r < length s" if "getline s d = Some (t, r)" for s t r d
    using that by (induction s arbitrary: t r) (auto split: if_splits option.splits)
  from g p have "length iss' < length iss"
    by (auto intro: shorter)
  then show "(iss', iss) \<in> measure length"
    by simp
qed

declare getlines.simps [simp del]

text \<open>The eight bytes of slot \<open>j\<close> of a key.\<close>

definition slot :: "GenericKey \<Rightarrow> nat \<Rightarrow> byte list" where
  "slot data j = take 8 (drop (j * 8) data)"

section \<open>Bytes and numbers\<close>

lemma length_le_bytes [simp]: "length (le_bytes n v) = n"
  by (induction n arbitrary: v) auto

lemma le_value_le_bytes: "le_value (le_bytes n v) = v mod 256 ^ n"
proof (induction n arbitrary: v)
  case 0
  then show ?case by simp
next
  case (Suc n)
  have "unat (word_of_nat (v mod 256) :: byte) = v mod 256"
    by (simp add: unat_of_nat)
  then show ?case
    using Suc by (simp add: mod_mult2_eq)
qed

lemma le_value_bound: "le_value bs < 256 ^ length bs"
proof (induction bs)
  case Nil
  then show ?case by simp
next
  case (Cons b bs)
  have "unat b < 256"
    using unsigned_less [of b, where ?'a = nat] by simp
  with Cons show ?case by simp
qed

lemma le_bytes_le_value: "length bs = n \<Longrightarrow> le_bytes n (le_value bs) = bs"
proof (induction bs arbitrary: n)
  case Nil
  then show ?case by simp
next
  case (Cons b bs)
  then obtain m where n: "n = Suc m" and m: "length bs = m"
    by (cases n) auto
  have b: "unat b < 256"
    using unsigned_less [of b, where ?'a = nat] by simp
  then have "(unat b + 256 * le_value bs) mod 256 = unat b"
    and "(unat b + 256 * le_value bs) div 256 = le_value bs"
    by simp_all
  with Cons.IH [OF m] n show ?case
    by simp
qed

lemma pow256: "(256::nat) ^ n = 2 ^ (8 * n)"
  by (simp add: power_mult)

lemma unat_less_256_pow:
  fixes x :: "'a::len word"
  assumes "LENGTH('a) = 8 * n"
  shows "unat x < 256 ^ n"
  using unsigned_less [of x, where ?'a = nat] assms by (simp add: pow256)

lemma word_of_nat_le_value_unat:
  fixes x :: "'a::len word"
  assumes "LENGTH('a) = 8 * n"
  shows "word_of_nat (le_value (le_bytes n (unat x))) = x"
  using unat_less_256_pow [OF assms, of x] by (simp add: le_value_le_bytes)

lemma unat_word_of_le_value:
  assumes "LENGTH('a::len) = 8 * n" and "length bs = n"
  shows "unat (word_of_nat (le_value bs) :: 'a word) = le_value bs"
proof -
  have "le_value bs < 2 ^ LENGTH('a)"
    using le_value_bound [of bs] assms by (simp add: pow256)
  then show ?thesis
    by (simp add: unat_of_nat)
qed

lemma object_bytes_bswap:
  fixes x :: "'a::len word"
  assumes "LENGTH('a) mod 8 = 0"
  shows "object_bytes LittleEndian (bswap x) = be_bytes x"
proof -
  define n where "n = LENGTH('a) div 8"
  with assms have len: "LENGTH('a) = 8 * n" by auto
  have "unat (word_of_nat (le_value (rev (le_bytes n (unat x)))) :: 'a word)
      = le_value (rev (le_bytes n (unat x)))"
    by (rule unat_word_of_le_value [OF len]) simp
  then show ?thesis
    by (simp add: object_bytes_def bswap_def be_bytes_def n_def [symmetric] le_bytes_le_value)
qed

lemma bswap_object_value:
  assumes "LENGTH('a::len) mod 8 = 0" and "length bs = LENGTH('a) div 8"
  shows "bswap (object_value LittleEndian bs :: 'a word) = be_value bs"
proof -
  define n where "n = LENGTH('a) div 8"
  with assms have len: "LENGTH('a) = 8 * n" and bs: "length bs = n" by auto
  have "unat (word_of_nat (le_value bs) :: 'a word) = le_value bs"
    by (rule unat_word_of_le_value [OF len bs])
  then show ?thesis
    by (simp add: object_value_def bswap_def be_value_def n_def [symmetric] le_bytes_le_value bs)
qed

lemma be_value_be_bytes:
  fixes x :: "'a::len word"
  assumes "LENGTH('a) mod 8 = 0"
  shows "be_value (be_bytes x) = x"
proof -
  define n where "n = LENGTH('a) div 8"
  with assms have len: "LENGTH('a) = 8 * n" by auto
  show ?thesis
    using word_of_nat_le_value_unat [OF len, of x]
    by (simp add: be_value_def be_bytes_def n_def [symmetric])
qed

lemma length_be_bytes [simp]: "length (be_bytes (x :: 'a::len word)) = LENGTH('a) div 8"
  by (simp add: be_bytes_def)


lemma object_bytes_BigEndian: "object_bytes BigEndian x = be_bytes x"
  by (simp add: object_bytes_def be_bytes_def)

lemma object_value_BigEndian: "object_value BigEndian bs = be_value bs"
  by (simp add: object_value_def be_value_def)

lemma object_bytes_byte: "object_bytes h (x :: 8 word) = be_bytes x"
  by (cases h) (simp_all add: object_bytes_def be_bytes_def)

lemma object_value_byte: "length bs = 1 \<Longrightarrow> (object_value h bs :: 8 word) = be_value bs"
  by (cases h; cases bs) (simp_all add: object_value_def be_value_def)

lemma object_bytes_htobe16: "object_bytes h (htobe16 h x) = be_bytes x"
  by (cases h) (simp_all add: htobe16_def object_bytes_bswap object_bytes_BigEndian)

lemma object_bytes_htobe32: "object_bytes h (htobe32 h x) = be_bytes x"
  by (cases h) (simp_all add: htobe32_def object_bytes_bswap object_bytes_BigEndian)

lemma object_bytes_htobe64: "object_bytes h (htobe64 h x) = be_bytes x"
  by (cases h) (simp_all add: htobe64_def object_bytes_bswap object_bytes_BigEndian)

lemma be16toh_object_value: "length bs = 2 \<Longrightarrow> be16toh h (object_value h bs) = be_value bs"
  by (cases h) (simp_all add: be16toh_def bswap_object_value object_value_BigEndian)

lemma be32toh_object_value: "length bs = 4 \<Longrightarrow> be32toh h (object_value h bs) = be_value bs"
  by (cases h) (simp_all add: be32toh_def bswap_object_value object_value_BigEndian)

lemma be64toh_object_value: "length bs = 8 \<Longrightarrow> be64toh h (object_value h bs) = be_value bs"
  by (cases h) (simp_all add: be64toh_def bswap_object_value object_value_BigEndian)

lemma object_repr_ToBigEndian: "object_repr h (ToBigEndian h v) = be_repr v"
  by (cases v)
    (simp_all add: TwoBytesToBigEndian_def FourBytesToBigEndian_def EightBytesToBigEndian_def
      object_bytes_byte object_bytes_htobe16 object_bytes_htobe32 object_bytes_htobe64)

lemma static_cast_ToHostEndian_object_of:
  "length bs = sizeof t \<Longrightarrow> static_cast t (ToHostEndian h (object_of h t bs)) = be_obj t bs"
  by (cases t)
    (simp_all add: TwoBytesToHostEndian_def FourBytesToHostEndian_def EightBytesToHostEndian_def
      object_value_byte be16toh_object_value be32toh_object_value be64toh_object_value)

lemma length_be_repr [simp]: "length (be_repr v) = sizeof (type_of v)"
  by (cases v) simp_all

lemma type_of_SignFlip [simp]: "type_of (SignFlip v) = type_of v"
  by (cases v) simp_all

lemma type_of_be_obj [simp]: "type_of (be_obj t bs) = t"
  by (cases t) simp_all

lemma be_obj_be_repr: "be_obj (type_of v) (be_repr v) = v"
  by (cases v) (simp_all add: be_value_be_bytes)

lemma SignFlip_SignFlip: "SignFlip (SignFlip v) = v"
  by (cases v) (simp_all add: xor.assoc)

lemma AddUnsignedInteger_eq:
  "AddUnsignedInteger h v offset data = memcpy_at data offset (be_repr v) (sizeof (type_of v))"
  by (simp add: AddUnsignedInteger_def object_repr_ToBigEndian)

lemma AddInteger_eq:
  "AddInteger h v offset data =
     memcpy_at data offset (be_repr (SignFlip v)) (sizeof (type_of v))"
  by (simp add: AddInteger_def object_repr_ToBigEndian)

lemma GetUnsignedInteger_eq:
  "offset + sizeof t \<le> length data \<Longrightarrow>
   GetUnsignedInteger h t offset data =
     Inr (be_obj t (take (sizeof t) (drop offset data)), data)"
  by (simp add: GetUnsignedInteger_def deref_at_def static_cast_ToHostEndian_object_of)

lemma GetInteger_eq:
  "offset + sizeof t \<le> length data \<Longrightarrow>
   GetInteger h t offset data =
     Inr (SignFlip (be_obj t (take (sizeof t) (drop offset data))), data)"
  by (simp add: GetInteger_def deref_at_def static_cast_ToHostEndian_object_of)

lemma memcpy_at_Inr:
  "offset + n \<le> length data \<Longrightarrow> length src = n \<Longrightarrow>
   memcpy_at data offset src n = Inr (take offset data @ src @ drop (offset + n) data)"
  by (simp add: memcpy_at_def)

section \<open>The sign flip and the signed order\<close>

lemma xor_msb_eq_add:
  fixes x :: "'a::len word"
  shows "x XOR push_bit (LENGTH('a) - 1) 1 = x + 2 ^ (LENGTH('a) - 1)"
proof -
  define m where "m = LENGTH('a) - 1"
  have two: "(2 :: 'a word) ^ m + 2 ^ m = 0"
  proof -
    have "(2 :: 'a word) ^ m + 2 ^ m = 2 ^ Suc m" by simp
    also have "Suc m = LENGTH('a)" by (simp add: m_def)
    finally show ?thesis by simp
  qed
  have "x XOR push_bit m 1 = flip_bit m x"
    by (simp add: flip_bit_eq_xor)
  also have "\<dots> = x + 2 ^ m"
  proof (cases "bit x m")
    case True
    then have "flip_bit m x = x - 2 ^ m"
      by (simp add: flip_bit_eq_if unset_bit_eq)
    also have "\<dots> = x + 2 ^ m"
      using two by (simp add: eq_neg_iff_add_eq_0 [symmetric])
    finally show ?thesis .
  next
    case False
    then show ?thesis
      by (simp add: flip_bit_eq_if set_bit_eq)
  qed
  finally show ?thesis
    by (simp add: m_def)
qed

lemma uint_flip_msb:
  fixes x :: "'a::len word"
  shows "uint (x XOR push_bit (LENGTH('a) - 1) 1) = sint x + 2 ^ (LENGTH('a) - 1)"
proof -
  define m where "m = LENGTH('a) - 1"
  have n: "Suc m = LENGTH('a)" by (simp add: m_def)
  have "sint x = signed_take_bit m (uint x)"
    by (simp add: sint_uint m_def)
  also have "\<dots> = take_bit (Suc m) (uint x + 2 ^ m) - 2 ^ m"
    by (rule signed_take_bit_eq_take_bit_shift)
  finally have s: "sint x + 2 ^ m = take_bit LENGTH('a) (uint x + 2 ^ m)"
    by (simp add: n)
  have "uint (x + 2 ^ m) = take_bit LENGTH('a) (uint x + uint (2 ^ m :: 'a word))"
    by (simp add: uint_word_ariths take_bit_eq_mod)
  also have "uint (2 ^ m :: 'a word) = 2 ^ m"
  proof -
    have "uint (word_of_int (2 ^ m) :: 'a word) = take_bit LENGTH('a) (2 ^ m)"
      by (simp only: uint_word_of_int_eq)
    also have "\<dots> = 2 ^ m"
      by (simp add: take_bit_eq_mod m_def)
    finally show ?thesis
      by (simp only: word_of_int_2p)
  qed
  finally show ?thesis
    using s unfolding xor_msb_eq_add m_def by simp
qed

lemma sint_less_iff_flipped:
  fixes x y :: "'a::len word"
  shows "sint x < sint y \<longleftrightarrow>
    x XOR push_bit (LENGTH('a) - 1) 1 < y XOR push_bit (LENGTH('a) - 1) 1"
  unfolding word_less_def uint_flip_msb by simp

section \<open>\<open>memcmp\<close> and the order of big-endian bytes\<close>

lemma memcmp_refl [simp]: "memcmp xs xs n = 0"
proof (induction xs arbitrary: n)
  case Nil
  then show ?case by simp
next
  case (Cons x xs)
  then show ?case by (cases n) simp_all
qed

lemma memcmp_swap: "memcmp ys xs n = - memcmp xs ys n"
  by (induction xs ys n rule: memcmp.induct) auto

lemma memcmp_eq_0_iff:
  "length xs = n \<Longrightarrow> length ys = n \<Longrightarrow> memcmp xs ys n = 0 \<longleftrightarrow> xs = ys"
proof (induction xs ys n rule: memcmp.induct)
  case (1 x xs y ys n)
  then show ?case
    by (auto simp: word_uint_eq_iff)
qed auto

lemma memcmp_append:
  "length xs = n \<Longrightarrow> length ys = n \<Longrightarrow>
   memcmp (xs @ s) (ys @ s') (n + m) = (if xs = ys then memcmp s s' m else memcmp xs ys n)"
proof (induction xs ys n rule: memcmp.induct)
  case (1 x xs y ys n)
  then show ?case by auto
qed auto

lemma memcmp_single: "memcmp [x] [y] (Suc 0) = uint x - uint y"
  by simp

lemma byte_of_nat_less:
  "a < 256 \<Longrightarrow> b < 256 \<Longrightarrow> uint (word_of_nat a :: byte) - uint (word_of_nat b :: byte) = int a - int b"
  by (simp add: uint_nat unat_of_nat)

lemma le_bytes_inj:
  "v < 256 ^ n \<Longrightarrow> w < 256 ^ n \<Longrightarrow> le_bytes n v = le_bytes n w \<longleftrightarrow> v = w"
  by (metis le_value_le_bytes mod_less)

lemma memcmp_be_sign:
  "v < 256 ^ n \<Longrightarrow> w < 256 ^ n \<Longrightarrow>
   (memcmp (rev (le_bytes n v)) (rev (le_bytes n w)) n < 0 \<longleftrightarrow> v < w)"
proof (induction n arbitrary: v w)
  case 0
  then show ?case by simp
next
  case (Suc n)
  let ?v = "v div 256" and ?w = "w div 256"
  from Suc.prems have hi: "?v < 256 ^ n" "?w < 256 ^ n"
    by (simp_all add: less_mult_imp_div_less mult.commute)
  have lo: "v mod 256 < 256" "w mod 256 < 256" by simp_all
  have split: "memcmp (rev (le_bytes (Suc n) v)) (rev (le_bytes (Suc n) w)) (Suc n) =
      (if ?v = ?w then int (v mod 256) - int (w mod 256)
       else memcmp (rev (le_bytes n ?v)) (rev (le_bytes n ?w)) n)"
    using memcmp_append [of "rev (le_bytes n ?v)" n "rev (le_bytes n ?w)"
        "[word_of_nat (v mod 256)]" "[word_of_nat (w mod 256)]" "Suc 0"]
      le_bytes_inj [OF hi] byte_of_nat_less [OF lo]
    by (simp del: memcmp.simps add: memcmp_single)
  show ?case
  proof (cases "?v = ?w")
    case True
    then have "v < w \<longleftrightarrow> v mod 256 < w mod 256"
      by (metis div_mult_mod_eq nat_add_left_cancel_less)
    with True split show ?thesis by simp
  next
    case False
    have "v < w \<longleftrightarrow> ?v < ?w"
    proof
      assume "v < w"
      then have "?v \<le> ?w" by (simp add: div_le_mono)
      with False show "?v < ?w" by simp
    next
      assume "?v < ?w"
      then show "v < w"
        by (metis div_le_mono not_le)
    qed
    with False split Suc.IH [OF hi] show ?thesis by simp
  qed
qed

lemma memcmp_be_bytes_less:
  fixes x y :: "'a::len word"
  assumes "LENGTH('a) mod 8 = 0"
  shows "memcmp (be_bytes x) (be_bytes y) (LENGTH('a) div 8) < 0 \<longleftrightarrow> x < y"
proof -
  define n where "n = LENGTH('a) div 8"
  with assms have len: "LENGTH('a) = 8 * n" by auto
  show ?thesis
    using memcmp_be_sign [OF unat_less_256_pow [OF len, of x] unat_less_256_pow [OF len, of y]]
    by (simp add: be_bytes_def n_def [symmetric] word_less_nat_alt)
qed

section \<open>Packed fields\<close>

lemma GenericKey_zero:
  "length raw = key_size_byte keySize \<Longrightarrow>
   GenericKey keySize raw = replicate (key_size_byte keySize) 0"
  by (simp add: GenericKey_def ZeroOut_def memset_def)

lemma memcpy_at_frame:
  assumes "offset + n \<le> length data" and "length src = n"
  shows "\<exists>k. memcpy_at data offset src n = Inr k \<and> length k = length data
    \<and> (\<forall>j<length data. j < offset \<or> offset + n \<le> j \<longrightarrow> k ! j = data ! j)"
proof -
  let ?k = "take offset data @ src @ drop (offset + n) data"
  have "memcpy_at data offset src n = Inr ?k"
    using assms by (rule memcpy_at_Inr)
  moreover have "length ?k = length data"
    using assms by simp
  moreover have "?k ! j = data ! j" if "j < length data" "j < offset \<or> offset + n \<le> j" for j
  proof (cases "j < offset")
    case True
    with assms show ?thesis by (simp add: nth_append)
  next
    case False
    with that have "offset + n \<le> j" by simp
    with assms that show ?thesis by (auto simp: nth_append)
  qed
  ultimately show ?thesis by blast
qed

lemma signed_field_less:
  fixes x y :: "'a::len word"
  assumes "LENGTH('a) mod 8 = 0"
  shows "memcmp (be_bytes (x XOR push_bit (LENGTH('a) - 1) 1))
           (be_bytes (y XOR push_bit (LENGTH('a) - 1) 1)) (LENGTH('a) div 8) < 0
         \<longleftrightarrow> sint x < sint y"
  unfolding memcmp_be_bytes_less [OF assms] sint_less_iff_flipped ..

lemma unsigned_field_less:
  fixes x y :: "'a::len word"
  assumes "LENGTH('a) mod 8 = 0"
  shows "memcmp (be_bytes x) (be_bytes y) (LENGTH('a) div 8) < 0 \<longleftrightarrow> uint x < uint y"
  unfolding memcmp_be_bytes_less [OF assms] word_less_def ..

lemma encode_less:
  assumes "type_of b = type_of a"
  shows "memcmp (encode a) (encode b) (sizeof (type_of a)) < 0 \<longleftrightarrow> less_native a b"
proof (cases a)
  case (I8 x)
  with assms obtain y where "b = I8 y" by (cases b) simp_all
  with I8 show ?thesis
    using signed_field_less [of x y] by (simp add: encode_def less_native_def)
next
  case (I16 x)
  with assms obtain y where "b = I16 y" by (cases b) simp_all
  with I16 show ?thesis
    using signed_field_less [of x y] by (simp add: encode_def less_native_def)
next
  case (I32 x)
  with assms obtain y where "b = I32 y" by (cases b) simp_all
  with I32 show ?thesis
    using signed_field_less [of x y] by (simp add: encode_def less_native_def)
next
  case (I64 x)
  with assms obtain y where "b = I64 y" by (cases b) simp_all
  with I64 show ?thesis
    using signed_field_less [of x y] by (simp add: encode_def less_native_def)
next
  case (U8 x)
  with assms obtain y where "b = U8 y" by (cases b) simp_all
  with U8 show ?thesis
    using unsigned_field_less [of x y] by (simp add: encode_def less_native_def)
next
  case (U16 x)
  with assms obtain y where "b = U16 y" by (cases b) simp_all
  with U16 show ?thesis
    using unsigned_field_less [of x y] by (simp add: encode_def less_native_def)
next
  case (U32 x)
  with assms obtain y where "b = U32 y" by (cases b) simp_all
  with U32 show ?thesis
    using unsigned_field_less [of x y] by (simp add: encode_def less_native_def)
next
  case (U64 x)
  with assms obtain y where "b = U64 y" by (cases b) simp_all
  with U64 show ?thesis
    using unsigned_field_less [of x y] by (simp add: encode_def less_native_def)
qed

lemma length_encode [simp]: "length (encode v) = sizeof (type_of v)"
  by (simp add: encode_def)

lemma be_repr_inj: "type_of b = type_of a \<Longrightarrow> be_repr a = be_repr b \<longleftrightarrow> a = b"
  by (metis be_obj_be_repr)

lemma encode_inj: "type_of b = type_of a \<Longrightarrow> encode a = encode b \<longleftrightarrow> a = b"
  by (metis SignFlip_SignFlip be_repr_inj encode_def type_of_SignFlip)

lemma pack_eq:
  "pack h v offset data = memcpy_at data offset (encode v) (sizeof (type_of v))"
  by (simp add: pack_def encode_def AddInteger_eq AddUnsignedInteger_eq)

lemma memcmp_prefix:
  "length p = n \<Longrightarrow> memcmp (p @ xs) (p @ ys) (n + m) = memcmp xs ys m"
  by (simp add: memcmp_append)

lemma memcmp_same_suffix:
  "length xs = n \<Longrightarrow> length ys = n \<Longrightarrow>
   memcmp (xs @ s) (ys @ s) (n + m) < 0 \<longleftrightarrow> memcmp xs ys n < 0"
  by (simp add: memcmp_append)

section \<open>Order preservation of a signed field\<close>

text \<open>
  C1.  Let \<open>a\<close> and \<open>b\<close> be two values of one signed type (\<open>int8_t\<close>, \<open>int16_t\<close>,
  \<open>int32_t\<close> or \<open>int64_t\<close>), each packed by \<open>AddInteger\<close> at the same in-bounds offset
  into the same key, so that the two results are identical outside the field.  Then
  both calls succeed, and \<open>a < b\<close> in the type's own order if and only if \<open>Compare\<close> of
  the two results is negative.  The values are arbitrary: \<open>-1\<close>, \<open>0\<close>, \<open>1\<close>, the minimum
  and the maximum of the type are among them.
\<close>

theorem AddInteger_preserves_order:
  assumes signed: "is_signed (type_of a)" and ty: "type_of b = type_of a"
    and len: "length data = key_size_byte keySize"
    and inb: "offset + sizeof (type_of a) \<le> key_size_byte keySize"
  shows "\<exists>ka kb. AddInteger h a offset data = Inr ka \<and> AddInteger h b offset data = Inr kb
    \<and> (less_native a b \<longleftrightarrow> Compare keySize ka kb < 0)"
proof -
  let ?n = "sizeof (type_of a)"
  let ?p = "take offset data" and ?s = "drop (offset + ?n) data"
  let ?ka = "?p @ encode a @ ?s" and ?kb = "?p @ encode b @ ?s"
  have a: "AddInteger h a offset data = Inr ?ka"
    using signed len inb pack_eq [of h a offset data]
    by (simp add: pack_def memcpy_at_Inr)
  have b: "AddInteger h b offset data = Inr ?kb"
    using signed ty len inb pack_eq [of h b offset data]
    by (simp add: pack_def memcpy_at_Inr)
  have split: "key_size_byte keySize = offset + (?n + (key_size_byte keySize - offset - ?n))"
    using inb by simp
  have "Compare keySize ?ka ?kb
      = memcmp (encode a @ ?s) (encode b @ ?s) (?n + (key_size_byte keySize - offset - ?n))"
    unfolding Compare_def using len inb
    by (subst split, intro memcmp_prefix) simp
  moreover have "memcmp (encode a @ ?s) (encode b @ ?s) (?n + (key_size_byte keySize - offset - ?n)) < 0
      \<longleftrightarrow> memcmp (encode a) (encode b) ?n < 0"
    using ty by (intro memcmp_same_suffix) simp_all
  ultimately have "Compare keySize ?ka ?kb < 0 \<longleftrightarrow> less_native a b"
    using encode_less [OF ty] by simp
  with a b show ?thesis by blast
qed

theorem AddInteger_preserves_order_witness:
  "\<exists>ka kb. AddInteger LittleEndian (I32 (- 1)) 4 (replicate 8 0) = Inr ka
     \<and> AddInteger LittleEndian (I32 0) 4 (replicate 8 0) = Inr kb
     \<and> Compare 1 ka kb < 0"
proof -
  have "less_native (I32 (- 1)) (I32 0)"
    by (simp add: less_native_def)
  then show ?thesis
    using AddInteger_preserves_order [of "I32 (- 1)" "I32 0" "replicate 8 0" 1 4 LittleEndian]
    by (simp add: key_size_byte_def)
qed

section \<open>Round trip\<close>

text \<open>
  C2.  For a value \<open>v\<close> of any of the eight integer types and an offset at which the
  type's width fits into the key, \<open>AddInteger\<close> succeeds and \<open>GetInteger\<close> with the type
  of \<open>v\<close> at that offset of the resulting key returns \<open>v\<close>; likewise
  \<open>AddUnsignedInteger\<close> succeeds and \<open>GetUnsignedInteger\<close> returns \<open>v\<close>.
\<close>

theorem round_trip:
  assumes "offset + sizeof (type_of v) \<le> length data"
  shows "(\<exists>k. AddInteger h v offset data = Inr k
            \<and> GetInteger h (type_of v) offset k = Inr (v, k))
       \<and> (\<exists>k. AddUnsignedInteger h v offset data = Inr k
            \<and> GetUnsignedInteger h (type_of v) offset k = Inr (v, k))"
proof (intro conjI)
  let ?n = "sizeof (type_of v)"
  let ?k = "\<lambda>src. take offset data @ src @ drop (offset + ?n) data"
  have len: "offset + ?n \<le> length (?k src)" if "length src = ?n" for src
    using assms that by simp
  have slice: "take ?n (drop offset (?k src)) = src" if "length src = ?n" for src
    using assms that by simp
  have "AddInteger h v offset data = Inr (?k (be_repr (SignFlip v)))"
    unfolding AddInteger_eq using assms by (intro memcpy_at_Inr) simp_all
  moreover have "GetInteger h (type_of v) offset (?k (be_repr (SignFlip v)))
      = Inr (v, ?k (be_repr (SignFlip v)))"
    using be_obj_be_repr [of "SignFlip v"]
    by (simp only: GetInteger_eq [OF len] slice length_be_repr type_of_SignFlip
        SignFlip_SignFlip)
  ultimately show "\<exists>k. AddInteger h v offset data = Inr k
      \<and> GetInteger h (type_of v) offset k = Inr (v, k)"
    by blast
  have "AddUnsignedInteger h v offset data = Inr (?k (be_repr v))"
    unfolding AddUnsignedInteger_eq using assms by (intro memcpy_at_Inr) simp_all
  moreover have "GetUnsignedInteger h (type_of v) offset (?k (be_repr v))
      = Inr (v, ?k (be_repr v))"
    by (simp only: GetUnsignedInteger_eq [OF len] slice length_be_repr be_obj_be_repr)
  ultimately show "\<exists>k. AddUnsignedInteger h v offset data = Inr k
      \<and> GetUnsignedInteger h (type_of v) offset k = Inr (v, k)"
    by blast
qed

theorem round_trip_witness:
  "(\<exists>k. AddInteger BigEndian (I64 (- 42)) 8 (replicate 16 0) = Inr k
       \<and> GetInteger BigEndian int64_t 8 k = Inr (I64 (- 42), k))
   \<and> (\<exists>k. AddUnsignedInteger BigEndian (I64 (- 42)) 8 (replicate 16 0) = Inr k
       \<and> GetUnsignedInteger BigEndian int64_t 8 k = Inr (I64 (- 42), k))"
  using round_trip [of 8 "I64 (- 42)" "replicate 16 0" BigEndian] by simp

section \<open>Comparison operators\<close>

text \<open>
  C4.  For two keys of one size parameter, exactly one of \<open>a < b\<close>, \<open>a == b\<close> and
  \<open>a > b\<close> holds (of the three truth values, counted as \<open>0\<close> or \<open>1\<close>, the sum is \<open>1\<close>);
  \<open>a != b\<close> is the negation of \<open>a == b\<close>, \<open>a <= b\<close> that of \<open>a > b\<close>, and \<open>a >= b\<close> that of
  \<open>a < b\<close>.
\<close>

theorem operators_consistent:
  "of_bool (operator_lt keySize a b) + of_bool (operator_eq keySize a b)
      + of_bool (operator_gt keySize a b) = (1::nat)
   \<and> operator_ne keySize a b = (\<not> operator_eq keySize a b)
   \<and> operator_le keySize a b = (\<not> operator_gt keySize a b)
   \<and> operator_ge keySize a b = (\<not> operator_lt keySize a b)"
  by (simp add: operator_lt_def operator_eq_def operator_gt_def operator_ne_def
      operator_le_def operator_ge_def)

text \<open>
  C5.  For two keys of one size parameter, \<open>operator<\<close> returns what \<open>LessThan(a, b)\<close>
  returns, \<open>operator==\<close> what \<open>Equals(a, b)\<close> returns, and \<open>operator>\<close> what
  \<open>LessThan(b, a)\<close> returns.
\<close>

theorem operators_agree_with_Compare:
  "operator_lt keySize a b = LessThan keySize a b
   \<and> operator_eq keySize a b = Equals keySize a b
   \<and> operator_gt keySize a b = LessThan keySize b a"
  using memcmp_swap [of b a "key_size_byte keySize"]
  by (simp add: operator_lt_def operator_eq_def operator_gt_def LessThan_def Equals_def
      Compare_def)

section \<open>The hash contract\<close>

text \<open>
  C7.  Two keys of one size parameter for which \<open>Equals\<close> holds have the same hash under
  \<open>GenericHasher\<close>.
\<close>

theorem hash_contract:
  "Equals keySize a b \<Longrightarrow> GenericHasher keySize a = GenericHasher keySize b"
  by (simp add: GenericHasher_def)

theorem hash_contract_witness:
  "Equals 1 (GenericKey 1 (replicate 8 1)) (GenericKey 1 (replicate 8 2))
   \<and> GenericHasher 1 (GenericKey 1 (replicate 8 1)) = GenericHasher 1 (GenericKey 1 (replicate 8 2))"
proof -
  have e: "Equals 1 (GenericKey 1 (replicate 8 1)) (GenericKey 1 (replicate 8 2))"
    by (simp add: Equals_def Compare_def GenericKey_zero key_size_byte_def)
  from e hash_contract [OF e] show ?thesis by simp
qed

section \<open>Frame of the pack and unpack functions\<close>

text \<open>
  C9.  With a value \<open>v\<close> of any of the eight integer types, of width \<open>w\<close>, and an
  offset at which \<open>w\<close> bytes fit into the key, \<open>AddInteger\<close> and \<open>AddUnsignedInteger\<close>
  each return a key of the same length in which every byte outside the \<open>w\<close> bytes from
  the offset on is as before; \<open>GetInteger\<close> and \<open>GetUnsignedInteger\<close> return the key
  unchanged.
\<close>

theorem pack_frame:
  assumes "offset + sizeof (type_of v) \<le> length data"
  shows "(\<exists>k. AddInteger h v offset data = Inr k \<and> length k = length data
            \<and> (\<forall>j<length data. j < offset \<or> offset + sizeof (type_of v) \<le> j \<longrightarrow> k ! j = data ! j))
       \<and> (\<exists>k. AddUnsignedInteger h v offset data = Inr k \<and> length k = length data
            \<and> (\<forall>j<length data. j < offset \<or> offset + sizeof (type_of v) \<le> j \<longrightarrow> k ! j = data ! j))
       \<and> (\<exists>r. GetInteger h (type_of v) offset data = Inr (r, data))
       \<and> (\<exists>r. GetUnsignedInteger h (type_of v) offset data = Inr (r, data))"
proof (intro conjI)
  show "\<exists>k. AddInteger h v offset data = Inr k \<and> length k = length data
      \<and> (\<forall>j<length data. j < offset \<or> offset + sizeof (type_of v) \<le> j \<longrightarrow> k ! j = data ! j)"
    unfolding AddInteger_eq using assms by (intro memcpy_at_frame) simp_all
  show "\<exists>k. AddUnsignedInteger h v offset data = Inr k \<and> length k = length data
      \<and> (\<forall>j<length data. j < offset \<or> offset + sizeof (type_of v) \<le> j \<longrightarrow> k ! j = data ! j)"
    unfolding AddUnsignedInteger_eq using assms by (intro memcpy_at_frame) simp_all
  show "\<exists>r. GetInteger h (type_of v) offset data = Inr (r, data)"
    using assms by (simp add: GetInteger_eq)
  show "\<exists>r. GetUnsignedInteger h (type_of v) offset data = Inr (r, data)"
    using assms by (simp add: GetUnsignedInteger_eq)
qed

theorem pack_frame_witness:
  "(\<exists>k. AddInteger LittleEndian (I16 (- 2)) 3 (replicate 8 7) = Inr k \<and> length k = 8
       \<and> k ! 0 = 7 \<and> k ! 2 = 7 \<and> k ! 5 = 7 \<and> k ! 7 = 7)
   \<and> (\<exists>k. AddUnsignedInteger LittleEndian (I16 (- 2)) 3 (replicate 8 7) = Inr k \<and> length k = 8
       \<and> k ! 0 = 7 \<and> k ! 2 = 7 \<and> k ! 5 = 7 \<and> k ! 7 = 7)
   \<and> (\<exists>r. GetInteger LittleEndian int16_t 3 (replicate 8 7) = Inr (r, replicate 8 7))
   \<and> (\<exists>r. GetUnsignedInteger LittleEndian int16_t 3 (replicate 8 7) = Inr (r, replicate 8 7))"
proof -
  have inb: "3 + sizeof (type_of (I16 (- 2))) \<le> length (replicate 8 (7::byte))"
    by simp
  note f = pack_frame [OF inb, of LittleEndian]
  from f [THEN conjunct1] obtain k
    where k: "AddInteger LittleEndian (I16 (- 2)) 3 (replicate 8 7) = Inr k" "length k = 8"
      and fr: "\<forall>j<8. j < 3 \<or> 5 \<le> j \<longrightarrow> k ! j = 7"
    by auto
  from f [THEN conjunct2, THEN conjunct1] obtain k'
    where k': "AddUnsignedInteger LittleEndian (I16 (- 2)) 3 (replicate 8 7) = Inr k'"
      "length k' = 8"
      and fr': "\<forall>j<8. j < 3 \<or> 5 \<le> j \<longrightarrow> k' ! j = 7"
    by auto
  from fr have "k ! 0 = 7 \<and> k ! 2 = 7 \<and> k ! 5 = 7 \<and> k ! 7 = 7"
    by simp
  moreover from fr' have "k' ! 0 = 7 \<and> k' ! 2 = 7 \<and> k' ! 5 = 7 \<and> k' ! 7 = 7"
    by simp
  ultimately show ?thesis
    using k k' f [THEN conjunct2, THEN conjunct2] by simp
qed

section \<open>The zero key\<close>

lemma le_value_zeros: "le_value (replicate n 0) = 0"
  by (induction n) simp_all

lemma be_value_zeros: "be_value (replicate n 0) = 0"
  by (simp add: be_value_def le_value_zeros)

lemma int_of_be_obj_zeros: "int_of (be_obj t (replicate n 0)) = 0"
  by (cases t) (simp_all add: be_value_zeros)

lemma sint_msb_only:
  "sint (0 XOR push_bit (LENGTH('a) - 1) 1 :: 'a::len word) = - (2 ^ (LENGTH('a) - 1))"
  using uint_flip_msb [of "0 XOR push_bit (LENGTH('a) - 1) 1 :: 'a word"]
  by (simp add: xor.assoc [symmetric])

lemma uint_msb_only:
  "uint (0 XOR push_bit (LENGTH('a) - 1) 1 :: 'a::len word) = 2 ^ (LENGTH('a) - 1)"
  using uint_flip_msb [of "0 :: 'a word"] by simp

lemma int_of_SignFlip_zeros:
  "int_of (SignFlip (be_obj t (replicate n 0))) =
     (if is_signed t then - (2 ^ (8 * sizeof t - 1)) else 2 ^ (8 * sizeof t - 1))"
proof (cases t)
  case int8_t
  then show ?thesis using sint_msb_only [where ?'a = 8] by (simp add: be_value_zeros)
next
  case int16_t
  then show ?thesis using sint_msb_only [where ?'a = 16] by (simp add: be_value_zeros)
next
  case int32_t
  then show ?thesis using sint_msb_only [where ?'a = 32] by (simp add: be_value_zeros)
next
  case int64_t
  then show ?thesis using sint_msb_only [where ?'a = 64] by (simp add: be_value_zeros)
next
  case uint8_t
  then show ?thesis using uint_msb_only [where ?'a = 8] by (simp add: be_value_zeros)
next
  case uint16_t
  then show ?thesis using uint_msb_only [where ?'a = 16] by (simp add: be_value_zeros)
next
  case uint32_t
  then show ?thesis using uint_msb_only [where ?'a = 32] by (simp add: be_value_zeros)
next
  case uint64_t
  then show ?thesis using uint_msb_only [where ?'a = 64] by (simp add: be_value_zeros)
qed

lemma slice_zeros:
  "offset + n \<le> m \<Longrightarrow> take n (drop offset (replicate m (0::byte))) = replicate n 0"
  by (simp add: min_def)

text \<open>
  C6.  A key made by the default constructor, whatever its storage held before, has
  every byte zero, and \<open>Equals\<close> and \<open>==\<close> hold between it and any other such key of the
  same size parameter.  At every in-bounds offset (aligned or not) and for every one of
  the eight types, \<open>GetUnsignedInteger\<close> on it returns the value \<open>0\<close> of the type, and
  \<open>GetInteger\<close> returns what the sign flip makes of an all-zero field: the least value
  of a signed type, \<open>- 2 ^ (bits - 1)\<close>, and \<open>2 ^ (bits - 1)\<close> for an unsigned type.
  Neither changes the key.
\<close>

theorem fresh_key:
  assumes raw: "length raw = key_size_byte keySize"
    and raw': "length raw' = key_size_byte keySize"
  shows "GenericKey keySize raw = replicate (key_size_byte keySize) 0
     \<and> Equals keySize (GenericKey keySize raw) (GenericKey keySize raw')
     \<and> operator_eq keySize (GenericKey keySize raw) (GenericKey keySize raw')
     \<and> (offset + sizeof t \<le> key_size_byte keySize \<longrightarrow>
          (\<exists>v. GetUnsignedInteger h t offset (GenericKey keySize raw)
                  = Inr (v, GenericKey keySize raw)
               \<and> type_of v = t \<and> int_of v = 0)
        \<and> (\<exists>v. GetInteger h t offset (GenericKey keySize raw)
                  = Inr (v, GenericKey keySize raw)
               \<and> type_of v = t
               \<and> int_of v = (if is_signed t then - (2 ^ (8 * sizeof t - 1))
                              else 2 ^ (8 * sizeof t - 1))))"
proof -
  let ?z = "replicate (key_size_byte keySize) (0::byte)"
  have k: "GenericKey keySize raw = ?z" and k': "GenericKey keySize raw' = ?z"
    using raw raw' by (simp_all add: GenericKey_zero)
  have eq: "Equals keySize ?z ?z" "operator_eq keySize ?z ?z"
    by (simp_all add: Equals_def Compare_def operator_eq_def)
  have get: "(\<exists>v. GetUnsignedInteger h t offset ?z = Inr (v, ?z) \<and> type_of v = t \<and> int_of v = 0)
      \<and> (\<exists>v. GetInteger h t offset ?z = Inr (v, ?z) \<and> type_of v = t
            \<and> int_of v = (if is_signed t then - (2 ^ (8 * sizeof t - 1))
                           else 2 ^ (8 * sizeof t - 1)))"
    if inb: "offset + sizeof t \<le> key_size_byte keySize"
  proof -
    from inb have len: "offset + sizeof t \<le> length ?z" by simp
    show ?thesis
      unfolding GetUnsignedInteger_eq [OF len] GetInteger_eq [OF len] slice_zeros [OF inb]
      by (simp add: int_of_be_obj_zeros int_of_SignFlip_zeros del: SignFlip.simps be_obj.simps)
  qed
  from k k' eq get show ?thesis by simp
qed

theorem fresh_key_witness:
  "GenericKey 2 (replicate 16 5) = replicate 16 0
   \<and> Equals 2 (GenericKey 2 (replicate 16 5)) (GenericKey 2 (replicate 16 9))
   \<and> operator_eq 2 (GenericKey 2 (replicate 16 5)) (GenericKey 2 (replicate 16 9))
   \<and> (\<exists>v. GetUnsignedInteger LittleEndian int32_t 4 (GenericKey 2 (replicate 16 5))
             = Inr (v, GenericKey 2 (replicate 16 5))
          \<and> type_of v = int32_t \<and> int_of v = 0)
   \<and> (\<exists>v. GetInteger LittleEndian int32_t 4 (GenericKey 2 (replicate 16 5))
             = Inr (v, GenericKey 2 (replicate 16 5))
          \<and> type_of v = int32_t \<and> int_of v = - 2147483648)"
proof -
  have raw: "length (replicate 16 (5::byte)) = key_size_byte 2"
    and raw': "length (replicate 16 (9::byte)) = key_size_byte 2"
    and inb: "4 + sizeof int32_t \<le> key_size_byte 2"
    by (simp_all add: key_size_byte_def)
  note f = fresh_key [OF raw raw', of 4 int32_t LittleEndian]
  have a: "GenericKey 2 (replicate 16 5) = replicate 16 0"
    using f [THEN conjunct1] by (simp add: key_size_byte_def)
  note b = f [THEN conjunct2, THEN conjunct1]
  note c = f [THEN conjunct2, THEN conjunct2, THEN conjunct1]
  note d = f [THEN conjunct2, THEN conjunct2, THEN conjunct2, THEN mp, OF inb]
  have e: "\<exists>v. GetInteger LittleEndian int32_t 4 (GenericKey 2 (replicate 16 5))
             = Inr (v, GenericKey 2 (replicate 16 5))
          \<and> type_of v = int32_t \<and> int_of v = - 2147483648"
    using d [THEN conjunct2] by simp
  show ?thesis
    by (intro conjI a b c d [THEN conjunct1] e)
qed

section \<open>Composite keys\<close>

lemma layout_ok_le: "layout_ok pos fs sz \<Longrightarrow> pos \<le> sz"
proof (induction fs arbitrary: pos)
  case Nil
  then show ?case by simp
next
  case (Cons f fs)
  obtain offset v where f: "f = (offset, v)" by (cases f)
  from Cons.prems f have "pos \<le> offset" and "layout_ok (offset + sizeof (type_of v)) fs sz"
    by simp_all
  with Cons.IH [of "offset + sizeof (type_of v)"] show ?case by simp
qed

lemma packed_image_cong:
  "layout_ok pos fs sz \<Longrightarrow> drop pos d1 = drop pos d2 \<Longrightarrow> packed_image pos fs d1 = packed_image pos fs d2"
proof (induction fs arbitrary: pos)
  case Nil
  then show ?case by simp
next
  case (Cons f fs)
  obtain offset v where f: "f = (offset, v)" by (cases f)
  let ?q = "offset + sizeof (type_of v)"
  from Cons.prems f have le: "pos \<le> offset" and ok: "layout_ok ?q fs sz"
    by simp_all
  have "drop (?q - pos) (drop pos d1) = drop (?q - pos) (drop pos d2)"
    using Cons.prems(2) by simp
  with le have "drop ?q d1 = drop ?q d2" by simp
  with Cons.IH [OF ok] Cons.prems(2) f show ?case by simp
qed

lemma length_packed_image:
  "layout_ok pos fs (length data) \<Longrightarrow> length (packed_image pos fs data) = length data - pos"
proof (induction fs arbitrary: pos)
  case Nil
  then show ?case by simp
next
  case (Cons f fs)
  obtain offset v where f: "f = (offset, v)" by (cases f)
  let ?q = "offset + sizeof (type_of v)"
  from Cons.prems f have le: "pos \<le> offset" and ok: "layout_ok ?q fs (length data)"
    by simp_all
  from layout_ok_le [OF ok] have inb: "?q \<le> length data" .
  with le have "length (take (offset - pos) (drop pos data)) = offset - pos"
    by simp
  with Cons.IH [OF ok] le inb f show ?case
    by (simp del: length_take length_drop)
qed

lemma pack_fields_image:
  "layout_ok pos fs (length data) \<Longrightarrow>
   pack_fields h fs data = Inr (take pos data @ packed_image pos fs data)"
proof (induction fs arbitrary: pos data)
  case Nil
  then show ?case by simp
next
  case (Cons f fs)
  obtain offset v where f: "f = (offset, v)" by (cases f)
  let ?n = "sizeof (type_of v)"
  let ?q = "offset + ?n"
  let ?d = "take offset data @ encode v @ drop ?q data"
  from Cons.prems f have le: "pos \<le> offset" and ok: "layout_ok ?q fs (length data)"
    by simp_all
  from layout_ok_le [OF ok] have inb: "?q \<le> length data" .
  have p: "pack h v offset data = Inr ?d"
    unfolding pack_eq using inb by (intro memcpy_at_Inr) simp_all
  have len: "length ?d = length data"
    using inb by simp
  have "pack_fields h fs ?d = Inr (take ?q ?d @ packed_image ?q fs ?d)"
    using ok by (intro Cons.IH) (simp only: len)
  moreover have "take ?q ?d = take offset data @ encode v"
    using inb by simp
  moreover have "take offset data = take pos data @ take (offset - pos) (drop pos data)"
    using le by (metis le_add_diff_inverse take_add)
  moreover have "packed_image ?q fs ?d = packed_image ?q fs data"
    using ok inb by (intro packed_image_cong) simp_all
  ultimately show ?case
    using f p by simp
qed

lemma same_layout_Cons:
  "same_layout (f1 # fs1) fs2 \<longleftrightarrow>
     (\<exists>f2 fs2'. fs2 = f2 # fs2' \<and> fst f1 = fst f2 \<and> type_of (snd f1) = type_of (snd f2)
        \<and> same_layout fs1 fs2')"
  by (auto simp: same_layout_def list_all2_Cons1)

lemma same_layout_Nil: "same_layout [] fs2 \<longleftrightarrow> fs2 = []"
  by (simp add: same_layout_def)

lemma same_layout_ok:
  "same_layout fs1 fs2 \<Longrightarrow> layout_ok pos fs1 sz \<Longrightarrow> layout_ok pos fs2 sz"
proof (induction fs1 arbitrary: fs2 pos)
  case Nil
  then show ?case by (simp add: same_layout_Nil)
next
  case (Cons f1 fs1)
  then show ?case
    by (cases f1) (auto simp: same_layout_Cons)
qed

lemma sgn_memcmp_fields:
  assumes ty: "type_of v2 = type_of v1"
    and len: "length r1 = m" "length r2 = m"
  shows "sgn (memcmp (encode v1 @ r1) (encode v2 @ r2) (sizeof (type_of v1) + m)) =
     (if less_native v1 v2 then - 1
      else if less_native v2 v1 then 1
      else sgn (memcmp r1 r2 m))"
proof -
  let ?n = "sizeof (type_of v1)"
  have app: "memcmp (encode v1 @ r1) (encode v2 @ r2) (?n + m) =
      (if encode v1 = encode v2 then memcmp r1 r2 m else memcmp (encode v1) (encode v2) ?n)"
    using ty by (intro memcmp_append) simp_all
  show ?thesis
  proof (cases "v1 = v2")
    case True
    then show ?thesis
      using app by (simp add: less_native_def)
  next
    case False
    with ty have ne: "encode v1 \<noteq> encode v2"
      by (simp add: encode_inj)
    then have nz: "memcmp (encode v1) (encode v2) ?n \<noteq> 0"
      using ty by (simp add: memcmp_eq_0_iff)
    have lt: "memcmp (encode v1) (encode v2) ?n < 0 \<longleftrightarrow> less_native v1 v2"
      by (rule encode_less [OF ty])
    have "memcmp (encode v2) (encode v1) (sizeof (type_of v2)) < 0 \<longleftrightarrow> less_native v2 v1"
      by (rule encode_less) (simp add: ty)
    then have gt: "memcmp (encode v1) (encode v2) ?n > 0 \<longleftrightarrow> less_native v2 v1"
      using memcmp_swap [of "encode v2" "encode v1" ?n] by (simp add: ty)
    from ne nz lt gt app show ?thesis
      by (auto simp: sgn_if)
  qed
qed

lemma compare_images:
  assumes "same_layout fs1 fs2" and "layout_ok pos fs1 sz"
    and "length k1 = sz" and "length k2 = sz"
    and "gaps pos fs1 k1 = gaps pos fs1 k2"
  shows "sgn (memcmp (packed_image pos fs1 k1) (packed_image pos fs2 k2) (sz - pos)) =
     tuple_compare (map snd fs1) (map snd fs2)"
  using assms
proof (induction fs1 arbitrary: fs2 pos)
  case Nil
  then show ?case by (simp add: same_layout_Nil)
next
  case (Cons f1 fs1)
  obtain offset v1 where f1: "f1 = (offset, v1)" by (cases f1)
  from Cons.prems(1) f1 obtain v2 fs2' where fs2: "fs2 = (offset, v2) # fs2'"
    and ty: "type_of v2 = type_of v1" and same: "same_layout fs1 fs2'"
    by (auto simp: same_layout_Cons)
  let ?n = "sizeof (type_of v1)"
  let ?q = "offset + ?n"
  let ?g = "take (offset - pos) (drop pos k1)"
  from Cons.prems(2) f1 have le: "pos \<le> offset" and ok: "layout_ok ?q fs1 sz"
    by simp_all
  from layout_ok_le [OF ok] have inb: "?q \<le> sz" .
  from Cons.prems(5) f1 have g: "take (offset - pos) (drop pos k2) = ?g"
    and gs: "gaps ?q fs1 k1 = gaps ?q fs1 k2"
    by simp_all
  have ok2: "layout_ok ?q fs2' sz"
    using same ok by (rule same_layout_ok)
  have lg: "length ?g = offset - pos"
    using Cons.prems(3) inb le by simp
  have l1: "length (packed_image ?q fs1 k1) = sz - ?q"
    using length_packed_image [of ?q fs1 k1] ok Cons.prems(3) by simp
  have l2: "length (packed_image ?q fs2' k2) = sz - ?q"
    using length_packed_image [of ?q fs2' k2] ok2 Cons.prems(4) by simp
  have sz: "sz - pos = (offset - pos) + (?n + (sz - ?q))"
    using le inb by simp
  have "memcmp (packed_image pos (f1 # fs1) k1) (packed_image pos fs2 k2) (sz - pos) =
      memcmp (encode v1 @ packed_image ?q fs1 k1) (encode v2 @ packed_image ?q fs2' k2) (?n + (sz - ?q))"
    unfolding sz using lg by (simp add: f1 fs2 g ty memcmp_prefix del: memcmp.simps)
  moreover have "sgn (memcmp (encode v1 @ packed_image ?q fs1 k1) (encode v2 @ packed_image ?q fs2' k2)
        (?n + (sz - ?q))) =
      (if less_native v1 v2 then - 1
       else if less_native v2 v1 then 1
       else sgn (memcmp (packed_image ?q fs1 k1) (packed_image ?q fs2' k2) (sz - ?q)))"
    using ty l1 l2 by (rule sgn_memcmp_fields)
  moreover have "sgn (memcmp (packed_image ?q fs1 k1) (packed_image ?q fs2' k2) (sz - ?q)) =
      tuple_compare (map snd fs1) (map snd fs2')"
    using same ok Cons.prems(3,4) gs by (rule Cons.IH)
  ultimately show ?case
    by (simp add: f1 fs2)
qed

text \<open>
  C3.  Two keys of one size parameter each pack a sequence of fields, the same types at
  the same offsets, the offsets increasing and the fields inside the buffer and not
  overlapping; signed fields are packed by \<open>AddInteger\<close>, unsigned ones by
  \<open>AddUnsignedInteger\<close>.  The bytes that no field covers are the same in the two keys
  before packing; when the fields cover the buffer there are no such bytes and the two
  keys may start from any contents.  Then both packings succeed, and the sign of
  \<open>Compare\<close> on the two results is the result of comparing the two tuples of values
  field by field, the first field dominant, each under the order of its type.
\<close>

theorem composite_order:
  assumes "layout_ok 0 fs1 (key_size_byte keySize)" and "same_layout fs1 fs2"
    and "length k1 = key_size_byte keySize" and "length k2 = key_size_byte keySize"
    and "gaps 0 fs1 k1 = gaps 0 fs1 k2"
  shows "\<exists>r1 r2. pack_fields h fs1 k1 = Inr r1 \<and> pack_fields h fs2 k2 = Inr r2
    \<and> sgn (Compare keySize r1 r2) = tuple_compare (map snd fs1) (map snd fs2)"
proof -
  have ok2: "layout_ok 0 fs2 (key_size_byte keySize)"
    using assms(2,1) by (rule same_layout_ok)
  have "pack_fields h fs1 k1 = Inr (packed_image 0 fs1 k1)"
    using pack_fields_image [of 0 fs1 k1 h] assms(1,3) by simp
  moreover have "pack_fields h fs2 k2 = Inr (packed_image 0 fs2 k2)"
    using pack_fields_image [of 0 fs2 k2 h] ok2 assms(4) by simp
  moreover have "sgn (Compare keySize (packed_image 0 fs1 k1) (packed_image 0 fs2 k2)) =
      tuple_compare (map snd fs1) (map snd fs2)"
    using compare_images [OF assms(2,1,3,4,5)] by (simp add: Compare_def)
  ultimately show ?thesis by blast
qed

theorem composite_order_witness:
  "\<exists>r1 r2.
     pack_fields LittleEndian [(0, I32 (- 1)), (4, U32 5)] (replicate 8 1) = Inr r1
     \<and> pack_fields LittleEndian [(0, I32 (- 1)), (4, U32 9)] (replicate 8 2) = Inr r2
     \<and> sgn (Compare 1 r1 r2) = - 1"
proof -
  have ok: "layout_ok 0 [(0, I32 (- 1)), (4, U32 5)] (key_size_byte 1)"
    by (simp add: key_size_byte_def)
  have same: "same_layout [(0, I32 (- 1)), (4, U32 5)] [(0, I32 (- 1)), (4, U32 9)]"
    by (simp add: same_layout_def)
  have len: "length (replicate 8 (1::byte)) = key_size_byte 1"
    "length (replicate 8 (2::byte)) = key_size_byte 1"
    by (simp_all add: key_size_byte_def)
  have g: "gaps 0 [(0, I32 (- 1)), (4, U32 5)] (replicate 8 1)
      = gaps 0 [(0, I32 (- 1)), (4, U32 5)] (replicate 8 2)"
    by simp
  have "tuple_compare (map snd [(0::nat, I32 (- 1)), (4, U32 5)])
      (map snd [(0::nat, I32 (- 1)), (4, U32 9)]) = - 1"
    by (simp add: less_native_def)
  with composite_order [OF ok same len g, of LittleEndian] show ?thesis
    by simp
qed

section \<open>\<open>setFromString\<close>\<close>

lemma isdigit_not_special:
  assumes "isdigit c"
  shows "\<not> isspace c" and "c \<noteq> CHR '',''" and "c \<noteq> CHR ''-''" and "c \<noteq> CHR ''+''"
  using assms by (auto simp: isdigit_def isspace_def)

lemma stoul_decimal:
  assumes "is_decimal t" and "decimal_value t \<le> ULONG_MAX"
  shows "stoul t = Inr (word_of_nat (decimal_value t))"
proof -
  from assms(1) obtain c cs where t: "t = c # cs" and c: "isdigit c" and all: "list_all isdigit t"
    by (cases t) (auto simp: is_decimal_def)
  from all have tw: "takeWhile isdigit cs = cs"
    by (simp add: t list_all_iff)
  from c have dw: "dropWhile isspace t = t"
    by (simp add: t isdigit_not_special)
  show ?thesis
    using assms(2) c unfolding stoul_def dw
    by (simp add: t tw isdigit_not_special Let_def)
qed

lemma getline_token_comma:
  "CHR '','' \<notin> set t \<Longrightarrow> getline (t @ CHR '','' # rest) CHR '','' = Some (t, rest)"
  by (induction t) auto

lemma getline_token_end:
  "t \<noteq> [] \<Longrightarrow> CHR '','' \<notin> set t \<Longrightarrow> getline t CHR '','' = Some (t, [])"
proof (induction t)
  case Nil
  then show ?case by simp
next
  case (Cons c cs)
  then show ?case by (cases cs) auto
qed

lemma decimal_no_comma: "is_decimal t \<Longrightarrow> CHR '','' \<notin> set t"
  by (auto simp: is_decimal_def list_all_iff dest: isdigit_not_special(2))

lemma slot_cong:
  assumes "length k = length data"
    and "\<And>x. j * 8 \<le> x \<Longrightarrow> x < j * 8 + 8 \<Longrightarrow> x < length data \<Longrightarrow> k ! x = data ! x"
  shows "slot k j = slot data j"
  unfolding slot_def
proof (rule nth_equalityI)
  show "length (take 8 (drop (j * 8) k)) = length (take 8 (drop (j * 8) data))"
    using assms(1) by simp
next
  fix x assume "x < length (take 8 (drop (j * 8) k))"
  then have x: "x < 8" "j * 8 + x < length data"
    using assms(1) by auto
  then show "take 8 (drop (j * 8) k) ! x = take 8 (drop (j * 8) data) ! x"
    using assms by simp
qed

lemma slot_store:
  assumes "i * 8 + 8 \<le> length data" and "length src = 8"
  shows "slot (take (i * 8) data @ src @ drop (i * 8 + 8) data) j =
     (if j = i then src else slot data j)"
proof (cases "j = i")
  case True
  with assms show ?thesis by (simp add: slot_def)
next
  case False
  have "slot (take (i * 8) data @ src @ drop (i * 8 + 8) data) j = slot data j"
  proof (rule slot_cong)
    show "length (take (i * 8) data @ src @ drop (i * 8 + 8) data) = length data"
      using assms by simp
  next
    fix x assume x: "j * 8 \<le> x" "x < j * 8 + 8" "x < length data"
    from False x have "x < i * 8 \<or> i * 8 + 8 \<le> x" by arith
    with assms x show "(take (i * 8) data @ src @ drop (i * 8 + 8) data) ! x = data ! x"
      by (auto simp: nth_append)
  qed
  with False show ?thesis by simp
qed

lemma AddUnsignedInteger_slot:
  assumes "i * 8 + 8 \<le> length data"
  shows "AddUnsignedInteger h (U64 v) (i * sizeof uint64_t) data =
     Inr (take (i * 8) data @ be_bytes v @ drop (i * 8 + 8) data)"
  unfolding AddUnsignedInteger_eq using assms by (simp add: memcpy_at_Inr)

lemma GetUnsignedInteger_slot:
  assumes "j * 8 + 8 \<le> length data"
  shows "GetUnsignedInteger h uint64_t (j * 8) data = Inr (U64 (be_value (slot data j)), data)"
  using assms by (simp add: GetUnsignedInteger_eq slot_def)

lemma slot_zeros: "j < n \<Longrightarrow> slot (replicate (n * 8) 0) j = replicate 8 0"
  unfolding slot_def by (rule slice_zeros) simp


lemma loop_decimal:
  assumes "\<forall>t\<in>set toks. is_decimal t \<and> decimal_value t \<le> ULONG_MAX"
    and "i < keySize" and "length data = key_size_byte keySize"
  shows "\<exists>r. setFromString_loop h keySize (comma_separated toks) i data = (r, None)
    \<and> length r = length data
    \<and> (\<forall>j<keySize. slot r j =
          (if i \<le> j \<and> j < i + length toks
           then be_bytes (word_of_nat (decimal_value (toks ! (j - i))) :: 64 word)
           else slot data j))"
  using assms
proof (induction toks arbitrary: i data rule: comma_separated.induct)
  case 1
  show ?case
    by (subst setFromString_loop.simps) auto
next
  case (2 t)
  let ?v = "word_of_nat (decimal_value t) :: 64 word"
  let ?d = "take (i * 8) data @ be_bytes ?v @ drop (i * 8 + 8) data"
  from "2.prems" have t: "is_decimal t" "decimal_value t \<le> ULONG_MAX"
    by simp_all
  from "2.prems" have inb: "i * 8 + 8 \<le> length data"
    by (simp add: key_size_byte_def)
  from t have g: "getline t CHR '','' = Some (t, [])"
    by (intro getline_token_end decimal_no_comma) (simp_all add: is_decimal_def)
  have fin: "setFromString_loop h keySize [] (i + 1) ?d = (?d, None)"
    by (subst setFromString_loop.simps) simp
  have "setFromString_loop h keySize t i data =
      (if keySize \<le> i + 1 then (?d, None)
       else setFromString_loop h keySize [] (i + 1) ?d)"
    by (subst setFromString_loop.simps)
      (simp only: g stoul_decimal [OF t] AddUnsignedInteger_slot [OF inb] option.case
        prod.case sum.case)
  with fin have "setFromString_loop h keySize (comma_separated [t]) i data = (?d, None)"
    by simp
  moreover have "length ?d = length data"
    using inb by simp
  moreover have "slot ?d j = (if i \<le> j \<and> j < i + length [t]
      then be_bytes (word_of_nat (decimal_value ([t] ! (j - i))) :: 64 word) else slot data j)" for j
    using slot_store [OF inb, of "be_bytes ?v" j] by auto
  ultimately show ?case by simp
next
  case (3 t t' ts)
  let ?v = "word_of_nat (decimal_value t) :: 64 word"
  let ?d = "take (i * 8) data @ be_bytes ?v @ drop (i * 8 + 8) data"
  let ?rest = "t' # ts"
  from "3.prems" have t: "is_decimal t" "decimal_value t \<le> ULONG_MAX"
    and rest: "\<forall>t\<in>set ?rest. is_decimal t \<and> decimal_value t \<le> ULONG_MAX"
    by simp_all
  from "3.prems" have inb: "i * 8 + 8 \<le> length data"
    by (simp add: key_size_byte_def)
  have len: "length ?d = length data"
    using inb by simp
  have g: "getline (comma_separated (t # ?rest)) CHR '','' = Some (t, comma_separated ?rest)"
    using t by (simp add: getline_token_comma decimal_no_comma)
  have step: "setFromString_loop h keySize (comma_separated (t # ?rest)) i data =
      (if keySize \<le> i + 1 then (?d, None)
       else setFromString_loop h keySize (comma_separated ?rest) (i + 1) ?d)"
    by (subst setFromString_loop.simps)
      (simp only: g stoul_decimal [OF t] AddUnsignedInteger_slot [OF inb] option.case
        prod.case sum.case)
  have here: "slot ?d j = (if j = i then be_bytes ?v else slot data j)" for j
    by (rule slot_store [OF inb]) simp
  show ?case
  proof (cases "keySize \<le> i + 1")
    case True
    with "3.prems"(2) have "j < keySize \<Longrightarrow> i \<le> j \<and> j < i + length (t # ?rest) \<longleftrightarrow> j = i" for j
      by auto
    with True step len here show ?thesis
      by simp
  next
    case False
    then have i: "i + 1 < keySize" by simp
    from "3.prems"(3) len have l: "length ?d = key_size_byte keySize" by simp
    from "3.IH" [OF rest i l] obtain r
      where r: "setFromString_loop h keySize (comma_separated ?rest) (i + 1) ?d = (r, None)"
        and lr: "length r = length ?d"
        and sl: "\<forall>j<keySize. slot r j =
          (if i + 1 \<le> j \<and> j < i + 1 + length ?rest
           then be_bytes (word_of_nat (decimal_value (?rest ! (j - (i + 1)))) :: 64 word)
           else slot ?d j)"
      by blast
    have "slot r j = (if i \<le> j \<and> j < i + length (t # ?rest)
        then be_bytes (word_of_nat (decimal_value ((t # ?rest) ! (j - i))) :: 64 word)
        else slot data j)" if "j < keySize" for j
    proof (cases "i + 1 \<le> j")
      case True
      then have "(t # ?rest) ! (j - i) = ?rest ! (j - (i + 1))"
        by (simp add: nth_Cons')
      with True sl that here [of j] show ?thesis
        by auto
    next
      case False
      with sl that here [of j] show ?thesis
        by auto
    qed
    with False step r lr len show ?thesis
      by simp
  qed
qed

lemma AddUnsignedInteger_U64_cases:
  assumes "AddUnsignedInteger h (U64 v) (i * 8) data = Inr data'"
  shows "length data' = length data" and "j \<noteq> i \<Longrightarrow> slot data' j = slot data j"
proof -
  from assms have inb: "i * 8 + 8 \<le> length data"
    by (auto simp: AddUnsignedInteger_eq memcpy_at_def split: if_splits)
  with assms have d: "data' = take (i * 8) data @ be_bytes v @ drop (i * 8 + 8) data"
    using AddUnsignedInteger_slot [of i data h v] by simp
  show "length data' = length data"
    using inb by (simp add: d)
  show "slot data' j = slot data j" if "j \<noteq> i"
    using that slot_store [OF inb, of "be_bytes v" j] by (simp add: d)
qed

lemma loop_frame:
  "length (fst (setFromString_loop h keySize iss i data)) = length data
   \<and> (\<forall>j. i + length (getlines iss) \<le> j \<longrightarrow>
         slot (fst (setFromString_loop h keySize iss i data)) j = slot data j)"
proof (induction h keySize iss i data rule: setFromString_loop.induct)
  case (1 h keySize iss i data)
  show ?case
  proof (cases "getline iss CHR '',''")
    case None
    then show ?thesis
      by (subst (1 2) setFromString_loop.simps) simp
  next
    case (Some p)
    obtain temp iss' where p: "p = (temp, iss')" by (cases p)
    have gl: "getlines iss = temp # getlines iss'"
      by (subst getlines.simps) (simp add: Some p)
    show ?thesis
    proof (cases "stoul temp")
      case (Inl e)
      then show ?thesis
        by (subst (1 2) setFromString_loop.simps) (simp add: Some p)
    next
      case (Inr v)
      show ?thesis
      proof (cases "AddUnsignedInteger h (U64 v) (i * 8) data")
        case (Inl e)
        with Inr show ?thesis
          by (subst (1 2) setFromString_loop.simps) (simp add: Some p)
      next
        case add: (Inr data')
        note here = AddUnsignedInteger_U64_cases [OF add]
        from add have add': "AddUnsignedInteger h (U64 v) (i * sizeof uint64_t) data = Inr data'"
          by simp
        show ?thesis
        proof (cases "keySize \<le> i + 1")
          case True
          have "setFromString_loop h keySize iss i data = (data', None)"
            using True add by (subst setFromString_loop.simps) (simp add: Some p Inr)
          with here gl show ?thesis by simp
        next
          case False
          have "setFromString_loop h keySize iss i data =
              setFromString_loop h keySize iss' (i + 1) data'"
            using False add by (subst setFromString_loop.simps) (simp add: Some p Inr)
          moreover note "1.IH" [OF Some p [symmetric] Inr add' False]
          ultimately show ?thesis
            using here gl by simp
        qed
      qed
    qed
  qed
qed

text \<open>
  A key needs a slot for the first token: the loop tests \<open>++i >= keySize\<close> only after
  it has packed a token, so with \<open>keySize = 0\<close> (a zero-length \<open>data\<close> array, which ISO
  C++ does not admit as an array type and g++ accepts as an extension) a non-empty
  string makes it pack its first token at slot \<open>0\<close>, outside the key.
\<close>

lemma setFromString_no_slot:
  "setFromString h 0 ''1'' [] = ([], Some out_of_bounds)"
  unfolding setFromString_def
  by (subst setFromString_loop.simps)
    (simp add: ZeroOut_def memset_def key_size_byte_def stoul_def isspace_def isdigit_def
      decimal_value_def ULONG_MAX_def AddUnsignedInteger_eq memcpy_at_def)

text \<open>
  C8, for keys of at least one slot.  The input is \<open>k\<close> decimal tokens, each a non-empty
  run of digits whose value fits into 64 bits, separated by commas, and \<open>keySize\<close> is at
  least \<open>1\<close>.  Then \<open>setFromString\<close> returns without an exception and without an access
  outside the key, the key keeps its length, and for every slot \<open>i\<close> below \<open>keySize\<close>,
  \<open>GetUnsignedInteger<uint64_t>\<close> at offset \<open>i * 8\<close> of the resulting key returns the
  value of token \<open>i\<close> when \<open>i < k\<close>, and \<open>0\<close> otherwise.  So the tokens \<open>0\<close> to
  \<open>min k keySize - 1\<close> are packed at their slots, and no token from \<open>keySize\<close> on is
  packed anywhere.
\<close>

theorem setFromString_decimal:
  assumes "0 < keySize" and "length data = key_size_byte keySize"
    and "\<forall>t\<in>set toks. is_decimal t \<and> decimal_value t \<le> ULONG_MAX"
  shows "\<exists>data'. setFromString h keySize (comma_separated toks) data = (data', None)
    \<and> length data' = key_size_byte keySize
    \<and> (\<forall>i<keySize. GetUnsignedInteger h uint64_t (i * 8) data' =
          Inr (U64 (if i < length toks then word_of_nat (decimal_value (toks ! i)) else 0),
               data'))"
proof -
  let ?z = "replicate (key_size_byte keySize) (0::byte)"
  have z: "ZeroOut keySize data = ?z"
    using assms(2) by (simp add: ZeroOut_def memset_def)
  from loop_decimal [OF assms(3,1), of ?z h] obtain r
    where r: "setFromString_loop h keySize (comma_separated toks) 0 ?z = (r, None)"
      and len: "length r = key_size_byte keySize"
      and sl: "\<forall>j<keySize. slot r j =
          (if j < length toks
           then be_bytes (word_of_nat (decimal_value (toks ! j)) :: 64 word)
           else slot ?z j)"
    by auto
  have "GetUnsignedInteger h uint64_t (i * 8) r =
      Inr (U64 (if i < length toks then word_of_nat (decimal_value (toks ! i)) else 0), r)"
    if i: "i < keySize" for i
  proof -
    from i len have inb: "i * 8 + 8 \<le> length r"
      by (simp add: key_size_byte_def)
    have "be_value (slot r i) =
        (if i < length toks then word_of_nat (decimal_value (toks ! i)) else 0 :: 64 word)"
      using sl i slot_zeros [OF i]
      by (simp add: key_size_byte_def be_value_be_bytes be_value_zeros)
    then show ?thesis
      by (simp only: GetUnsignedInteger_slot [OF inb])
  qed
  with r len z show ?thesis
    by (simp add: setFromString_def)
qed

theorem setFromString_decimal_witness:
  "\<exists>data'. setFromString LittleEndian 3 ''1,2,3'' (replicate 24 9) = (data', None)
     \<and> length data' = 24
     \<and> GetUnsignedInteger LittleEndian uint64_t 0 data' = Inr (U64 1, data')
     \<and> GetUnsignedInteger LittleEndian uint64_t 8 data' = Inr (U64 2, data')
     \<and> GetUnsignedInteger LittleEndian uint64_t 16 data' = Inr (U64 3, data')"
proof -
  have ks: "0 < (3::nat)"
    by simp
  have len: "length (replicate 24 (9::byte)) = key_size_byte 3"
    by (simp add: key_size_byte_def)
  have toks: "\<forall>t\<in>set [''1'', ''2'', ''3'']. is_decimal t \<and> decimal_value t \<le> ULONG_MAX"
    by (simp add: is_decimal_def isdigit_def decimal_value_def ULONG_MAX_def)
  from setFromString_decimal [OF ks len toks, of LittleEndian] obtain data'
    where r: "setFromString LittleEndian 3 (comma_separated [''1'', ''2'', ''3''])
        (replicate 24 9) = (data', None)"
      and l: "length data' = key_size_byte 3"
      and g: "\<forall>i<3. GetUnsignedInteger LittleEndian uint64_t (i * 8) data' =
          Inr (U64 (if i < length [''1'', ''2'', ''3'']
                    then word_of_nat (decimal_value ([''1'', ''2'', ''3''] ! i)) else 0),
               data')"
    by blast
  from g [rule_format, of 0] g [rule_format, of 1] g [rule_format, of 2] r l
  show ?thesis
    by (simp add: decimal_value_def key_size_byte_def)
qed

text \<open>
  Without a slot the statement fails: the key is empty, the string is the one decimal
  token \<open>1\<close>, and \<open>setFromString\<close> ends in an access outside the key, where it packs
  that token at slot \<open>0 = keySize\<close>.
\<close>

theorem setFromString_no_slot_counterexample:
  "length ([] :: byte list) = key_size_byte 0
   \<and> is_decimal ''1'' \<and> decimal_value ''1'' \<le> ULONG_MAX
   \<and> setFromString LittleEndian 0 (comma_separated [''1'']) [] = ([], Some out_of_bounds)"
  by (simp add: setFromString_no_slot key_size_byte_def is_decimal_def isdigit_def
      decimal_value_def ULONG_MAX_def)

text \<open>
  C10.  Called with one string on two keys of one size parameter, whatever the two hold,
  \<open>setFromString\<close> ends the same way and leaves the same buffer (also when \<open>stoul\<close>
  throws on the way); and in the buffer left, every slot \<open>j\<close> of the key from the number
  of tokens in the string on reads as \<open>0\<close> through \<open>GetUnsignedInteger<uint64_t>\<close>.
\<close>

theorem setFromString_deterministic:
  assumes "length k1 = key_size_byte keySize" and "length k2 = key_size_byte keySize"
  shows "setFromString h keySize key k1 = setFromString h keySize key k2
    \<and> (\<forall>j. length (getlines key) \<le> j \<and> j < keySize \<longrightarrow>
          GetUnsignedInteger h uint64_t (j * 8) (fst (setFromString h keySize key k1)) =
            Inr (U64 0, fst (setFromString h keySize key k1)))"
proof -
  let ?z = "replicate (key_size_byte keySize) (0::byte)"
  let ?r = "fst (setFromString_loop h keySize key 0 ?z)"
  have z: "ZeroOut keySize k1 = ?z" "ZeroOut keySize k2 = ?z"
    using assms by (simp_all add: ZeroOut_def memset_def)
  have "GetUnsignedInteger h uint64_t (j * 8) ?r = Inr (U64 0, ?r)"
    if j: "length (getlines key) \<le> j" "j < keySize" for j
  proof -
    from loop_frame [of h keySize key 0 ?z] j
    have len: "length ?r = key_size_byte keySize" and sl: "slot ?r j = slot ?z j"
      by simp_all
    from j len have inb: "j * 8 + 8 \<le> length ?r"
      by (simp add: key_size_byte_def)
    have "be_value (slot ?r j) = (0 :: 64 word)"
      using sl slot_zeros [OF j(2)] by (simp add: key_size_byte_def be_value_zeros)
    then show ?thesis
      by (simp only: GetUnsignedInteger_slot [OF inb])
  qed
  then show ?thesis
    by (simp add: setFromString_def z)
qed

theorem setFromString_deterministic_witness:
  "setFromString LittleEndian 3 ''7'' (replicate 24 1)
     = setFromString LittleEndian 3 ''7'' (replicate 24 2)
   \<and> GetUnsignedInteger LittleEndian uint64_t 8
         (fst (setFromString LittleEndian 3 ''7'' (replicate 24 1))) =
       Inr (U64 0, fst (setFromString LittleEndian 3 ''7'' (replicate 24 1)))
   \<and> GetUnsignedInteger LittleEndian uint64_t 16
         (fst (setFromString LittleEndian 3 ''7'' (replicate 24 1))) =
       Inr (U64 0, fst (setFromString LittleEndian 3 ''7'' (replicate 24 1)))"
proof -
  have len: "length (replicate 24 (1::byte)) = key_size_byte 3"
    "length (replicate 24 (2::byte)) = key_size_byte 3"
    by (simp_all add: key_size_byte_def)
  have n: "length (getlines ''7'') = 1"
    by (simp add: getlines.simps)
  note f = setFromString_deterministic [OF len, of LittleEndian "''7''", unfolded n]
  note g = f [THEN conjunct2, rule_format]
  have "GetUnsignedInteger LittleEndian uint64_t (1 * 8)
         (fst (setFromString LittleEndian 3 ''7'' (replicate 24 1))) =
       Inr (U64 0, fst (setFromString LittleEndian 3 ''7'' (replicate 24 1)))"
    by (rule g) simp
  moreover have "GetUnsignedInteger LittleEndian uint64_t (2 * 8)
         (fst (setFromString LittleEndian 3 ''7'' (replicate 24 1))) =
       Inr (U64 0, fst (setFromString LittleEndian 3 ''7'' (replicate 24 1)))"
    by (rule g) simp
  ultimately show ?thesis
    using f [THEN conjunct1] by simp
qed

end
